theory Spec2Isabelle
  imports Main "HOL-Library.Multiset"
begin

section \<open>Exceptions\<close>

text \<open>
  The exception classes of \<^verbatim>\<open>task_C2_5.py\<close>. Every raise of the source carries a
  fixed message; the messages are enumerated, one constructor per string literal:
  \<^item> \<open>ColumnRange\<close>: "Column value should be between 1 and 6"
  \<^item> \<open>RowRange\<close>: "Row value should be between 1 and 6"
  \<^item> \<open>IncorrectState\<close>: "Incorrect state of dot"
  \<^item> \<open>LengthRange\<close>: "Length should be from 1 to 3"
  \<^item> \<open>DirectionChoice\<close>: "Direction should be horizontal or vertical"
  \<^item> \<open>ShipOffBoard\<close>: "This ship can't be places on the board, change start point or length"
  \<^item> \<open>HealthNegative\<close>: "Health can't get negative value"
  \<^item> \<open>NeedEmptyDot\<close>: "You can't place ship here, must be at least 1 empty dot between ships"
  \<^item> \<open>TooManyShips\<close>: "You're trying to place more ships, than you can"
  \<^item> \<open>AlreadyShot\<close>: "You've already shot in this field"
  \<^item> \<open>ShootOutside\<close>: "You're trying to shoot outside the board. Choose the coords
    between 1 and 6"
\<close>

datatype message =
    ColumnRange | RowRange | IncorrectState | LengthRange | DirectionChoice | ShipOffBoard
  | HealthNegative | NeedEmptyDot | TooManyShips | AlreadyShot | ShootOutside

datatype exn =
    BoardOutException message
  | IncorrectParametersException message
  | GameplayException message

text \<open>
  The error kinds of the specification, read off the raises of the source:
  a bounds error is any \<open>BoardOutException\<close>; a placement error is one of the two
  \<open>IncorrectParametersException\<close>s of \<open>add_ship\<close>; a repeat-shot error is the
  \<open>IncorrectParametersException\<close> of \<open>shot\<close>; the remaining raises are domain errors.
\<close>

fun BoundsError :: "exn \<Rightarrow> bool" where
  "BoundsError (BoardOutException m) = True"
| "BoundsError e = False"

fun PlacementError :: "exn \<Rightarrow> bool" where
  "PlacementError (IncorrectParametersException m) = (m = NeedEmptyDot \<or> m = TooManyShips)"
| "PlacementError e = False"

fun RepeatShotError :: "exn \<Rightarrow> bool" where
  "RepeatShotError (IncorrectParametersException m) = (m = AlreadyShot)"
| "RepeatShotError e = False"

fun DomainError :: "exn \<Rightarrow> bool" where
  "DomainError (GameplayException m) = True"
| "DomainError (IncorrectParametersException m) = (m = LengthRange \<or> m = DirectionChoice)"
| "DomainError e = False"

section \<open>Dot\<close>

text \<open>
  A \<open>Dot\<close> object: its two coordinates and its state string. The \<open>icon\<close> attribute is a
  function of the state that only \<open>print_board\<close> reads; it is left out.
\<close>

record dot =
  column :: int
  row :: int
  state :: string

definition STATE_CHOICES :: "string list" where
  "STATE_CHOICES = [''undamaged'', ''damaged'', ''missed'', ''hidden'']"

text \<open>
  \<open>Dot.__init__\<close>: the three property setters run in the order column, row, state, and
  the first one that raises decides the exception.
\<close>

definition Dot :: "int \<Rightarrow> int \<Rightarrow> string \<Rightarrow> exn + dot" where
  "Dot c r s =
     (if 1 \<le> c \<and> c \<le> 6 then
        if 1 \<le> r \<and> r \<le> 6 then
          if s \<in> set STATE_CHOICES then Inr \<lparr>column = c, row = r, state = s\<rparr>
          else Inl (GameplayException IncorrectState)
        else Inl (BoardOutException RowRange)
      else Inl (BoardOutException ColumnRange))"

section \<open>Ship\<close>

text \<open>
  A \<open>Ship\<close> object. \<open>dots_list\<close> holds references to the board's own \<open>Dot\<close> objects;
  a reference is the (column, row) address of the cell in the board.
\<close>

record ship =
  ship_length :: int
  direction :: string
  start_point :: dot
  health :: int
  dots_list :: "(int \<times> int) list"

definition DIRECTION_CHOICES :: "string list" where
  "DIRECTION_CHOICES = [''horizontal'', ''vertical'']"

text \<open>
  The body of the loop shared by \<open>check_start_point\<close> and \<open>get_dots\<close>: the coordinate
  of part \<open>i\<close> of the ship, or nothing when the direction is neither choice.
\<close>

definition part_coord :: "string \<Rightarrow> dot \<Rightarrow> nat \<Rightarrow> (int \<times> int) list" where
  "part_coord d v i =
     (if d = ''horizontal'' then [(column v + int i, row v)]
      else if d = ''vertical'' then [(column v, row v + int i)]
      else [])"

definition run_coords :: "int \<Rightarrow> string \<Rightarrow> dot \<Rightarrow> (int \<times> int) list" where
  "run_coords l d v = concat (map (part_coord d v) [0..<nat l])"

text \<open>
  \<open>check_start_point\<close>: constructs a \<open>Dot\<close> (default state) for every part in turn; the
  first exception leaves the loop.
\<close>

fun check_parts :: "(int \<times> int) list \<Rightarrow> exn + unit" where
  "check_parts [] = Inr ()"
| "check_parts ((c, r) # ps) =
     (case Dot c r ''hidden'' of
        Inl e \<Rightarrow> Inl e
      | Inr _ \<Rightarrow> check_parts ps)"

definition check_start_point :: "int \<Rightarrow> string \<Rightarrow> dot \<Rightarrow> exn + unit" where
  "check_start_point l d v =
     (case check_parts (run_coords l d v) of
        Inl (BoardOutException m) \<Rightarrow> Inl (BoardOutException ShipOffBoard)
      | Inl e \<Rightarrow> Inl e
      | Inr u \<Rightarrow> Inr u)"

text \<open>
  \<open>Ship.__init__\<close>: the setters run in the order length, direction, start point, health.
  The optional \<open>health\<close> argument is stored unchecked; when it is absent the health is
  the length.
\<close>

definition Ship :: "int \<Rightarrow> string \<Rightarrow> dot \<Rightarrow> int option \<Rightarrow> exn + ship" where
  "Ship l d v h =
     (if 1 \<le> l \<and> l \<le> 3 then
        if d \<in> set DIRECTION_CHOICES then
          (case check_start_point l d v of
             Inl e \<Rightarrow> Inl e
           | Inr _ \<Rightarrow>
               Inr \<lparr>ship_length = l, direction = d, start_point = v,
                    health = (case h of None \<Rightarrow> l | Some x \<Rightarrow> x), dots_list = []\<rparr>)
        else Inl (IncorrectParametersException DirectionChoice)
      else Inl (IncorrectParametersException LengthRange))"

definition get_dots :: "ship \<Rightarrow> (int \<times> int) list" where
  "get_dots s = run_coords (ship_length s) (direction s) (start_point s)"

definition reduce_health :: "ship \<Rightarrow> exn + ship" where
  "reduce_health s =
     (if health s > 0 then Inr (s\<lparr>health := health s - 1\<rparr>)
      else Inl (GameplayException HealthNegative))"

section \<open>Board\<close>

text \<open>
  A \<open>Board\<close> object. The source's \<open>board\<close> has a header row and a leading row label
  that only \<open>print_board\<close> reads; they are dropped, so the source's
  \<open>board[row][column]\<close> is \<open>board ! (row - 1) ! (column - 1)\<close> here. Every access of
  the source is at \<open>1 \<le> row, column \<le> 6\<close>: \<open>shot\<close> guards its arguments, and the dots
  and the contour of a constructed ship are on the board.
\<close>

record grid =
  board :: "dot list list"
  ships_list :: "ship list"
  ship_length_list :: "int list"

definition create_board :: "dot list list" where
  "create_board = map (\<lambda>i. map (\<lambda>j. \<lparr>column = j, row = i, state = ''hidden''\<rparr>) [1..6]) [1..6]"

definition Board :: grid where
  "Board = \<lparr>board = create_board, ships_list = [], ship_length_list = [3, 2, 2, 1, 1, 1, 1]\<rparr>"

definition dot_at :: "dot list list \<Rightarrow> int \<times> int \<Rightarrow> dot" where
  "dot_at b p = b ! nat (snd p - 1) ! nat (fst p - 1)"

text \<open>The assignment \<open>self.board[row][column].state = s\<close>, for \<open>p = (column, row)\<close>.\<close>

definition set_state :: "string \<Rightarrow> dot list list \<Rightarrow> int \<times> int \<Rightarrow> dot list list" where
  "set_state s b p =
     b[nat (snd p - 1) := (b ! nat (snd p - 1))[nat (fst p - 1) := (dot_at b p)\<lparr>state := s\<rparr>]]"

text \<open>
  \<open>Board.contour\<close>. A Python set is a duplicate-free list here. The order in which
  \<open>list(contour_dot_list)\<close> enumerates the set is not fixed by the language, so it is
  the parameter \<open>ord\<close>; \<open>set_order ord\<close> says that \<open>ord\<close> keeps the elements.
\<close>

type_synonym enumeration = "(int \<times> int) list \<Rightarrow> (int \<times> int) list"

definition set_order :: "enumeration \<Rightarrow> bool" where
  "set_order ord = (\<forall>xs. set (ord xs) = set xs)"

definition block :: "int \<times> int \<Rightarrow> (int \<times> int) list" where
  "block p = concat (map (\<lambda>i. map (\<lambda>j. (fst p + i, snd p + j)) [-1..1]) [-1..1])"

definition contour :: "enumeration \<Rightarrow> ship \<Rightarrow> (int \<times> int) list" where
  "contour ord s =
     (let contour_dot_set = remdups (concat (map block (get_dots s)));
          contour_dot_set = filter (\<lambda>p. p \<notin> set (get_dots s)) contour_dot_set;
          contour_dot_list = ord contour_dot_set
      in filter (\<lambda>(c, r). \<not> (\<not> (1 \<le> c \<and> c \<le> 6) \<or> \<not> (1 \<le> r \<and> r \<le> 6))) contour_dot_list)"

text \<open>
  \<open>Board.add_ship\<close>. The result is the outcome together with the board object after the
  call, so that what a raising call leaves behind is part of the model. The new ship's
  \<open>dots_list\<close> receives the addresses of the cells it occupies. The two exceptions are
  raised before anything is changed, whatever the ship. The branch that places the ship
  is written for ships whose dots are all on the board, as the constructor checks. For a
  ship with a dot off the board (its length or direction was reassigned after
  construction) the source fails in that branch on \<open>self.board[dot[1]][dot[0]]\<close>, after
  it has changed the lists and the cells before that dot; that path is not described
  here, and what is proved of a failing \<open>add_ship\<close> is proved of ships with all dots on
  the board.
\<close>

definition occupied_dots :: "enumeration \<Rightarrow> ship list \<Rightarrow> (int \<times> int) list" where
  "occupied_dots ord ships = concat (map (\<lambda>s. get_dots s @ contour ord s) ships)"

definition add_ship :: "enumeration \<Rightarrow> ship \<Rightarrow> grid \<Rightarrow> (exn + unit) \<times> grid" where
  "add_ship ord new_ship g =
     (if \<exists>d \<in> set (get_dots new_ship). d \<in> set (occupied_dots ord (ships_list g)) then
        (Inl (IncorrectParametersException NeedEmptyDot), g)
      else if ship_length new_ship \<in> set (ship_length_list g) then
        (Inr (),
         g\<lparr>ship_length_list := remove1 (ship_length new_ship) (ship_length_list g),
           ships_list := ships_list g @
              [new_ship\<lparr>dots_list := dots_list new_ship @ get_dots new_ship\<rparr>],
           board := foldl (set_state ''undamaged'') (board g) (get_dots new_ship)\<rparr>)
      else (Inl (IncorrectParametersException TooManyShips), g))"

text \<open>
  The \<open>for i in self.ships_list\<close> loop of \<open>Board.shot\<close>. Python's list iterator is an
  index \<open>k\<close> into the list as it is at each step, so after \<open>self.ships_list.remove(i)\<close>
  the ship that followed \<open>i\<close> is skipped. The inner \<open>for column, row in self.contour(i)\<close>
  rebinds \<open>column\<close> and \<open>row\<close>, which the later iterations then test: they end as the
  last contour coordinate (unchanged when the contour is empty). \<open>remove\<close> deletes the
  object \<open>i\<close> itself, which is the entry at index \<open>k\<close>.
\<close>

function shot_loop :: "enumeration \<Rightarrow> nat \<Rightarrow> int \<times> int \<Rightarrow> grid \<Rightarrow> (exn + bool) \<times> grid" where
  "shot_loop ord k p g =
     (if k < length (ships_list g) then
        if p \<in> set (get_dots (ships_list g ! k)) then
          (case reduce_health (ships_list g ! k) of
             Inl e \<Rightarrow> (Inl e, g)
           | Inr i \<Rightarrow>
               if health i = 0 then
                 shot_loop ord (Suc k)
                   (if contour ord i = [] then p else last (contour ord i))
                   (g\<lparr>board := foldl (set_state ''missed'') (board g) (contour ord i),
                      ships_list := take k (ships_list g) @ drop (Suc k) (ships_list g)\<rparr>)
               else shot_loop ord (Suc k) p (g\<lparr>ships_list := (ships_list g)[k := i]\<rparr>))
        else shot_loop ord (Suc k) p g
      else (Inr True, g))"
  by pat_completeness auto
termination
  by (relation "measure (\<lambda>(ord, k, p, g). length (ships_list g) - k)") auto

text \<open>
  \<open>Board.shot\<close>. The last \<open>elif\<close> tests \<open>state == "damaged" or "missed"\<close>, which is
  always true since \<open>"missed"\<close> is a non-empty string: it is the \<open>else\<close> branch, and the
  \<open>print_board\<close> call after the chain is never reached.
\<close>

definition shot :: "enumeration \<Rightarrow> int \<Rightarrow> int \<Rightarrow> grid \<Rightarrow> (exn + bool) \<times> grid" where
  "shot ord c r g =
     (if 1 \<le> c \<and> c \<le> 6 \<and> 1 \<le> r \<and> r \<le> 6 then
        if state (dot_at (board g) (c, r)) = ''undamaged'' then
          shot_loop ord 0 (c, r) (g\<lparr>board := set_state ''damaged'' (board g) (c, r)\<rparr>)
        else if state (dot_at (board g) (c, r)) = ''hidden'' then
          (Inr False, g\<lparr>board := set_state ''missed'' (board g) (c, r)\<rparr>)
        else (Inl (IncorrectParametersException AlreadyShot), g)
      else (Inl (BoardOutException ShootOutside), g))"

section \<open>Predicates on ships and boards\<close>

subsection \<open>Cells, ships and fleets\<close>

text \<open>
  A coordinate pair (column, row) is on the board when both are in 1..6. Two distinct
  cells are 8-adjacent when they differ by at most one in each coordinate.
\<close>

definition in_bounds :: "int \<times> int \<Rightarrow> bool" where
  "in_bounds p = (1 \<le> fst p \<and> fst p \<le> 6 \<and> 1 \<le> snd p \<and> snd p \<le> 6)"

definition adjacent8 :: "int \<times> int \<Rightarrow> int \<times> int \<Rightarrow> bool" where
  "adjacent8 p q = (p \<noteq> q \<and> \<bar>fst p - fst q\<bar> \<le> 1 \<and> \<bar>snd p - snd q\<bar> \<le> 1)"

text \<open>
  The board is a 6 by 6 matrix, and the dot stored at an address carries that address.
\<close>

definition board_wf :: "dot list list \<Rightarrow> bool" where
  "board_wf b = (length b = 6 \<and> (\<forall>xs \<in> set b. length xs = 6))"

definition coords_ok :: "dot list list \<Rightarrow> bool" where
  "coords_ok b = (\<forall>p. in_bounds p \<longrightarrow> column (dot_at b p) = fst p \<and> row (dot_at b p) = snd p)"

text \<open>
  What the setters of \<open>Ship\<close> guarantee of a ship object: a length in 1..3, one of the
  two directions, and all dots on the board.
\<close>

definition ship_ok :: "ship \<Rightarrow> bool" where
  "ship_ok s = (1 \<le> ship_length s \<and> ship_length s \<le> 3 \<and> direction s \<in> set DIRECTION_CHOICES \<and>
     (\<forall>p \<in> set (get_dots s). in_bounds p))"

text \<open>
  The adjacency rule: no dot of \<open>s\<close> is a dot or a contour cell of \<open>t\<close>; a fleet obeys
  it when this holds of any two of its entries.
\<close>

definition apart :: "enumeration \<Rightarrow> ship \<Rightarrow> ship \<Rightarrow> bool" where
  "apart ord s t = (\<forall>p \<in> set (get_dots s). p \<notin> set (get_dots t) \<and> p \<notin> set (contour ord t))"

definition adjacency :: "enumeration \<Rightarrow> ship list \<Rightarrow> bool" where
  "adjacency ord ships =
     (\<forall>i < length ships. \<forall>j < length ships. i \<noteq> j \<longrightarrow> apart ord (ships ! i) (ships ! j))"

definition grid_inv :: "enumeration \<Rightarrow> grid \<Rightarrow> bool" where
  "grid_inv ord g =
     (board_wf (board g) \<and> coords_ok (board g) \<and> (\<forall>s \<in> set (ships_list g). ship_ok s) \<and>
      adjacency ord (ships_list g))"

text \<open>
  The health of a ship against the board: it is at least 1 and counts the ship's dots
  that are still undamaged, and every dot of the ship is undamaged or damaged. In a sound
  fleet every ship is so, and every undamaged cell belongs to a ship of the fleet.
\<close>

definition undamaged_count :: "dot list list \<Rightarrow> ship \<Rightarrow> nat" where
  "undamaged_count b s = length (filter (\<lambda>p. state (dot_at b p) = ''undamaged'') (get_dots s))"

definition ship_sound :: "dot list list \<Rightarrow> ship \<Rightarrow> bool" where
  "ship_sound b s =
     (1 \<le> health s \<and> health s = int (undamaged_count b s) \<and>
      (\<forall>p \<in> set (get_dots s).
          state (dot_at b p) = ''undamaged'' \<or> state (dot_at b p) = ''damaged''))"

definition fleet_inv :: "grid \<Rightarrow> bool" where
  "fleet_inv g =
     ((\<forall>j < length (ships_list g). ship_sound (board g) (ships_list g ! j)) \<and>
      (\<forall>p. in_bounds p \<longrightarrow> state (dot_at (board g) p) = ''undamaged'' \<longrightarrow>
           (\<exists>j < length (ships_list g). p \<in> set (get_dots (ships_list g ! j)))))"

subsection \<open>Sequences of calls\<close>

text \<open>
  The boards a caller can reach: a fresh \<open>Board()\<close>, then any calls of \<open>shot\<close> and of
  \<open>add_ship\<close>, whether they return or raise. A \<open>Ship\<close> is a mutable object, so the ship
  handed to \<open>add_ship\<close> is taken in the state it has at that call: any ship that
  satisfies \<open>ship_ok\<close>, with whatever health and \<open>dots_list\<close> it has by then. That is a
  ship fresh from the constructor (with or without the \<open>health\<close> argument) as well as a
  ship object that was placed before, was sunk (its health is then 0) and is placed
  again. Between the calls the ships of the fleet are changed by the board's own methods
  only. \<open>reachable_full\<close> is the same with every ship at full health, that is, with health
  equal to its length, at the call that places it. \<open>placed ord n g\<close>: the board \<open>g\<close> is a
  fresh board after \<open>n\<close> successful calls of \<open>add_ship\<close> with ships from the constructor.
\<close>

inductive reachable :: "enumeration \<Rightarrow> grid \<Rightarrow> bool" for ord :: enumeration where
  reachable_Board: "reachable ord Board"
| reachable_add_ship:
    "reachable ord g \<Longrightarrow> ship_ok s \<Longrightarrow> reachable ord (snd (add_ship ord s g))"
| reachable_shot: "reachable ord g \<Longrightarrow> reachable ord (snd (shot ord c r g))"

inductive reachable_full :: "enumeration \<Rightarrow> grid \<Rightarrow> bool" for ord :: enumeration where
  reachable_full_Board: "reachable_full ord Board"
| reachable_full_add_ship:
    "reachable_full ord g \<Longrightarrow> ship_ok s \<Longrightarrow> health s = ship_length s \<Longrightarrow>
     reachable_full ord (snd (add_ship ord s g))"
| reachable_full_shot: "reachable_full ord g \<Longrightarrow> reachable_full ord (snd (shot ord c r g))"

inductive placed :: "enumeration \<Rightarrow> nat \<Rightarrow> grid \<Rightarrow> bool" for ord :: enumeration where
  placed_Board: "placed ord 0 Board"
| placed_add_ship:
    "placed ord n g \<Longrightarrow> Ship l d v h = Inr s \<Longrightarrow> add_ship ord s g = (Inr (), g') \<Longrightarrow>
     placed ord (Suc n) g'"

text \<open>
  Running a list of placements or of shots, keeping the board each call leaves behind;
  \<open>all_placed\<close> says that every placement of the list succeeds.
\<close>

fun place_all :: "enumeration \<Rightarrow> ship list \<Rightarrow> grid \<Rightarrow> grid" where
  "place_all ord [] g = g"
| "place_all ord (s # ss) g = place_all ord ss (snd (add_ship ord s g))"

fun all_placed :: "enumeration \<Rightarrow> ship list \<Rightarrow> grid \<Rightarrow> bool" where
  "all_placed ord [] g = True"
| "all_placed ord (s # ss) g =
     (fst (add_ship ord s g) = Inr () \<and> all_placed ord ss (snd (add_ship ord s g)))"

fun shoot_all :: "enumeration \<Rightarrow> (int \<times> int) list \<Rightarrow> grid \<Rightarrow> grid" where
  "shoot_all ord [] g = g"
| "shoot_all ord ((c, r) # ps) g = shoot_all ord ps (snd (shot ord c r g))"

text \<open>
  The moves of a cell's state that a shot can make: none, undamaged to damaged, or to
  missed. \<open>board_step\<close> lifts this to boards, with the coordinates of every cell kept.
\<close>

definition advances :: "string \<Rightarrow> string \<Rightarrow> bool" where
  "advances s s' = (s' = s \<or> (s = ''undamaged'' \<and> s' = ''damaged'') \<or> s' = ''missed'')"

definition board_step :: "dot list list \<Rightarrow> dot list list \<Rightarrow> bool" where
  "board_step b b' =
     (board_wf b' \<and>
      (\<forall>q. in_bounds q \<longrightarrow>
         advances (state (dot_at b q)) (state (dot_at b' q)) \<and>
         column (dot_at b' q) = column (dot_at b q) \<and> row (dot_at b' q) = row (dot_at b q)))"

text \<open>
  What one call \<open>shot(c, r)\<close> on the board \<open>g\<close> can do to the state of the cell at
  \<open>p\<close>. \<open>sunk_by\<close> says that ship number \<open>k\<close> of the fleet is sunk by this shot: the
  target is one of its dots, the target cell is undamaged and one unit of health is left.
  A cell keeps its state; or it is the target and goes from undamaged to damaged or from
  hidden to missed; or it lies on the contour of the ship that this shot sinks and becomes
  missed.
\<close>

definition sunk_by :: "enumeration \<Rightarrow> int \<Rightarrow> int \<Rightarrow> grid \<Rightarrow> nat \<Rightarrow> bool" where
  "sunk_by ord c r g k =
     (k < length (ships_list g) \<and> (c, r) \<in> set (get_dots (ships_list g ! k)) \<and>
      state (dot_at (board g) (c, r)) = ''undamaged'' \<and> health (ships_list g ! k) = 1)"

definition shot_move ::
    "enumeration \<Rightarrow> int \<Rightarrow> int \<Rightarrow> grid \<Rightarrow> int \<times> int \<Rightarrow> string \<Rightarrow> string \<Rightarrow> bool" where
  "shot_move ord c r g p s s' =
     (s' = s \<or>
      (p = (c, r) \<and> s = ''undamaged'' \<and> s' = ''damaged'') \<or>
      (p = (c, r) \<and> s = ''hidden'' \<and> s' = ''missed'') \<or>
      (s' = ''missed'' \<and>
       (\<exists>k < length (ships_list g).
           sunk_by ord c r g k \<and> p \<in> set (contour ord (ships_list g ! k)))))"

subsection \<open>Sample data\<close>

text \<open>
  For the worked examples: the enumeration that lists a set in insertion order;
  \<open>built_ship l d c r\<close>, the object that \<open>Ship(l, d, Dot(c, r))\<close> returns;
  \<open>feeble_ship\<close>, the object that \<open>Ship(1, "horizontal", Dot(1, 1), health=0)\<close> returns;
  \<open>sunk_ship\<close>, the object \<open>Ship(1, "horizontal", Dot(1, 1))\<close> as it is after it was
  placed on a board and sunk there, with health 0 and its cell in \<open>dots_list\<close>;
  and a full fleet that fits on the board.
\<close>

definition insertion_order :: enumeration where
  "insertion_order xs = xs"

definition built_ship :: "int \<Rightarrow> string \<Rightarrow> int \<Rightarrow> int \<Rightarrow> ship" where
  "built_ship l d c r = \<lparr>ship_length = l, direction = d,
     start_point = \<lparr>column = c, row = r, state = ''hidden''\<rparr>, health = l, dots_list = []\<rparr>"

definition feeble_ship :: ship where
  "feeble_ship = (built_ship 1 ''horizontal'' 1 1)\<lparr>health := 0\<rparr>"

definition sunk_ship :: ship where
  "sunk_ship = (built_ship 1 ''horizontal'' 1 1)\<lparr>health := 0, dots_list := [(1, 1)]\<rparr>"

definition fleet7 :: "ship list" where
  "fleet7 = [built_ship 3 ''horizontal'' 1 1, built_ship 2 ''horizontal'' 5 1,
             built_ship 2 ''vertical'' 1 3, built_ship 1 ''horizontal'' 4 3,
             built_ship 1 ''horizontal'' 6 3, built_ship 1 ''horizontal'' 3 5,
             built_ship 1 ''horizontal'' 5 5]"

section \<open>Auxiliary facts\<close>

subsection \<open>Reading and writing cells\<close>

lemma board_wf_set_state: "board_wf b \<Longrightarrow> board_wf (set_state s b p)"
proof (cases "nat (snd p - 1) < length b")
  case True
  assume "board_wf b"
  with True show ?thesis
    unfolding board_wf_def set_state_def
    by (auto dest!: set_update_subset_insert [THEN subsetD])
next
  case False
  assume "board_wf b"
  with False show ?thesis by (simp add: set_state_def list_update_beyond)
qed

lemma board_wf_foldl: "board_wf b \<Longrightarrow> board_wf (foldl (set_state s) b ps)"
  by (induction ps arbitrary: b) (auto simp: board_wf_set_state)

lemma in_bounds_idx: "in_bounds p \<Longrightarrow> nat (fst p - 1) < 6 \<and> nat (snd p - 1) < 6"
  by (auto simp: in_bounds_def)

lemma in_bounds_idx_eq:
  "in_bounds p \<Longrightarrow> in_bounds q \<Longrightarrow>
     (nat (fst p - 1) = nat (fst q - 1) \<and> nat (snd p - 1) = nat (snd q - 1)) = (p = q)"
  by (auto simp: in_bounds_def prod_eq_iff)

lemma dot_at_set_state:
  assumes "board_wf b" "in_bounds p" "in_bounds q"
  shows "dot_at (set_state s b p) q = (if q = p then (dot_at b p)\<lparr>state := s\<rparr> else dot_at b q)"
proof -
  from assms(1) have len: "length b = 6" and rows: "\<And>i. i < 6 \<Longrightarrow> length (b ! i) = 6"
    by (auto simp: board_wf_def)
  note ip = in_bounds_idx [OF assms(2)] and iq = in_bounds_idx [OF assms(3)]
  show ?thesis
  proof (cases "q = p")
    case True
    then show ?thesis using len rows ip by (simp add: set_state_def dot_at_def)
  next
    case False
    then have "\<not> (nat (fst p - 1) = nat (fst q - 1) \<and> nat (snd p - 1) = nat (snd q - 1))"
      using in_bounds_idx_eq [OF assms(2,3)] by auto
    then show ?thesis using False len rows ip iq
      by (auto simp: set_state_def dot_at_def nth_list_update)
  qed
qed

lemma dot_at_foldl:
  assumes "board_wf b" "\<forall>p \<in> set ps. in_bounds p" "in_bounds q"
  shows "dot_at (foldl (set_state s) b ps) q =
           (if q \<in> set ps then (dot_at b q)\<lparr>state := s\<rparr> else dot_at b q)"
  using assms
proof (induction ps arbitrary: b)
  case Nil
  then show ?case by simp
next
  case (Cons p ps)
  have wf: "board_wf (set_state s b p)" using Cons.prems(1) by (rule board_wf_set_state)
  have "dot_at (foldl (set_state s) (set_state s b p) ps) q =
          (if q \<in> set ps then (dot_at (set_state s b p) q)\<lparr>state := s\<rparr>
           else dot_at (set_state s b p) q)"
    using Cons.IH [OF wf] Cons.prems by simp
  then show ?case using Cons.prems by (auto simp: dot_at_set_state)
qed

lemma board_wf_create: "board_wf create_board"
  by (simp add: board_wf_def create_board_def)

lemma dot_at_create: "in_bounds p \<Longrightarrow> dot_at create_board p = \<lparr>column = fst p, row = snd p, state = ''hidden''\<rparr>"
proof -
  assume "in_bounds p"
  then have a: "nat (fst p - 1) < 6" "nat (snd p - 1) < 6" "1 \<le> fst p" "1 \<le> snd p" by (auto simp: in_bounds_def)
  have l: "length [1..6::int] = 6" by simp
  have n: "\<And>i. i < 6 \<Longrightarrow> [1..6::int] ! i = 1 + int i" by (simp add: nth_upto)
  show ?thesis using a by (simp add: dot_at_def create_board_def l n)
qed

subsection \<open>Ship construction and dots\<close>

lemma in_run_coords:
  "p \<in> set (run_coords l d v) \<longleftrightarrow> (\<exists>i. i < nat l \<and> p \<in> set (part_coord d v i))"
  by (auto simp: run_coords_def)

lemma in_run_coords_int:
  "d \<in> set DIRECTION_CHOICES \<Longrightarrow>
   p \<in> set (run_coords l d v) \<longleftrightarrow>
     (\<exists>i. 0 \<le> i \<and> i < l \<and>
        p = (if d = ''horizontal'' then (column v + i, row v) else (column v, row v + i)))"
proof
  assume d: "d \<in> set DIRECTION_CHOICES" and "p \<in> set (run_coords l d v)"
  then obtain n where n: "n < nat l" "p \<in> set (part_coord d v n)"
    by (auto simp: in_run_coords)
  then have "0 \<le> int n \<and> int n < l \<and>
      p = (if d = ''horizontal'' then (column v + int n, row v) else (column v, row v + int n))"
    using d by (auto simp: part_coord_def DIRECTION_CHOICES_def split: if_splits)
  then show "\<exists>i. 0 \<le> i \<and> i < l \<and>
        p = (if d = ''horizontal'' then (column v + i, row v) else (column v, row v + i))"
    by blast
next
  assume d: "d \<in> set DIRECTION_CHOICES"
    and "\<exists>i. 0 \<le> i \<and> i < l \<and>
        p = (if d = ''horizontal'' then (column v + i, row v) else (column v, row v + i))"
  then obtain i where i: "0 \<le> i" "i < l"
    "p = (if d = ''horizontal'' then (column v + i, row v) else (column v, row v + i))" by blast
  then have "nat i < nat l \<and> p \<in> set (part_coord d v (nat i))"
    using d by (auto simp: part_coord_def DIRECTION_CHOICES_def)
  then show "p \<in> set (run_coords l d v)" unfolding in_run_coords by blast
qed

lemma check_parts_Inr: "(\<forall>p \<in> set ps. in_bounds p) \<Longrightarrow> check_parts ps = Inr ()"
  by (induction ps rule: check_parts.induct)
     (auto simp: Dot_def STATE_CHOICES_def in_bounds_def)

lemma check_parts_Inl:
  "(\<exists>p \<in> set ps. \<not> in_bounds p) \<Longrightarrow> \<exists>m. check_parts ps = Inl (BoardOutException m)"
  by (induction ps rule: check_parts.induct)
     (auto simp: Dot_def STATE_CHOICES_def in_bounds_def)

lemma check_start_point_cases:
  "check_start_point l d v =
     (if \<forall>p \<in> set (run_coords l d v). in_bounds p then Inr ()
      else Inl (BoardOutException ShipOffBoard))"
proof (cases "\<forall>p \<in> set (run_coords l d v). in_bounds p")
  case True
  then show ?thesis by (simp add: check_start_point_def check_parts_Inr)
next
  case False
  then obtain m where "check_parts (run_coords l d v) = Inl (BoardOutException m)"
    using check_parts_Inl by blast
  with False show ?thesis by (simp add: check_start_point_def)
qed

lemma Ship_Inr:
  "Ship l d v h = Inr s \<longleftrightarrow>
     (1 \<le> l \<and> l \<le> 3 \<and> d \<in> set DIRECTION_CHOICES \<and> (\<forall>p \<in> set (run_coords l d v). in_bounds p) \<and>
      s = \<lparr>ship_length = l, direction = d, start_point = v,
           health = (case h of None \<Rightarrow> l | Some x \<Rightarrow> x), dots_list = []\<rparr>)"
  by (auto simp: Ship_def check_start_point_cases)

lemma Ship_ok: "Ship l d v h = Inr s \<Longrightarrow> ship_ok s"
  by (auto simp: Ship_Inr ship_ok_def get_dots_def)

lemma Ship_full: "Ship l d v None = Inr s \<Longrightarrow> health s = ship_length s"
  by (auto simp: Ship_Inr)

lemma distinct_run_coords: "distinct (run_coords l d v)"
proof -
  have "distinct (concat (map (part_coord d v) xs))" if "distinct xs" for xs
    using that by (induction xs) (auto simp: part_coord_def)
  then show ?thesis by (simp add: run_coords_def)
qed

lemma distinct_get_dots: "distinct (get_dots s)"
  by (simp add: get_dots_def distinct_run_coords)

lemma get_dots_nonempty: "ship_ok s \<Longrightarrow> get_dots s \<noteq> []"
proof -
  assume ok: "ship_ok s"
  then have l: "0 < nat (ship_length s)" by (simp add: ship_ok_def)
  have "part_coord (direction s) (start_point s) 0 \<noteq> []"
    using ok by (auto simp: ship_ok_def part_coord_def DIRECTION_CHOICES_def)
  then obtain p where "p \<in> set (part_coord (direction s) (start_point s) 0)"
    by (cases "part_coord (direction s) (start_point s) 0") auto
  with l have "p \<in> set (get_dots s)"
    unfolding get_dots_def in_run_coords by (intro exI [of _ 0]) simp
  then show ?thesis by auto
qed

lemma length_get_dots: "ship_ok s \<Longrightarrow> int (length (get_dots s)) = ship_length s"
proof -
  assume ok: "ship_ok s"
  have "length (concat (map (part_coord (direction s) (start_point s)) xs)) = length xs" for xs
    using ok by (induction xs) (auto simp: ship_ok_def part_coord_def DIRECTION_CHOICES_def)
  then show ?thesis using ok by (simp add: get_dots_def run_coords_def ship_ok_def)
qed

subsection \<open>Contours\<close>

lemma in_block: "p \<in> set (block q) \<longleftrightarrow> \<bar>fst p - fst q\<bar> \<le> 1 \<and> \<bar>snd p - snd q\<bar> \<le> 1"
proof -
  have "p \<in> set (block q) \<longleftrightarrow>
      (\<exists>i j. - 1 \<le> i \<and> i \<le> 1 \<and> - 1 \<le> j \<and> j \<le> 1 \<and> p = (fst q + i, snd q + j))"
  proof -
    have A: "set [- 1..1::int] = {- 1..1}" by (rule set_upto)
    have "set (block q) = (\<Union>i\<in>{- 1..1}. (\<lambda>j. (fst q + i, snd q + j)) ` {- 1..1})"
      by (simp only: block_def set_concat set_map image_image A)
    then show ?thesis by (simp only: UN_iff image_iff Bex_def atLeastAtMost_iff) blast
  qed
  also have "\<dots> \<longleftrightarrow> \<bar>fst p - fst q\<bar> \<le> 1 \<and> \<bar>snd p - snd q\<bar> \<le> 1"
  proof
    assume "\<exists>i j. - 1 \<le> i \<and> i \<le> 1 \<and> - 1 \<le> j \<and> j \<le> 1 \<and> p = (fst q + i, snd q + j)"
    then obtain i j where "- 1 \<le> i" "i \<le> 1" "- 1 \<le> j" "j \<le> 1" "p = (fst q + i, snd q + j)"
      by blast
    then show "\<bar>fst p - fst q\<bar> \<le> 1 \<and> \<bar>snd p - snd q\<bar> \<le> 1" by (simp add: abs_le_iff)
  next
    assume a: "\<bar>fst p - fst q\<bar> \<le> 1 \<and> \<bar>snd p - snd q\<bar> \<le> 1"
    have "- 1 \<le> fst p - fst q \<and> fst p - fst q \<le> 1 \<and> - 1 \<le> snd p - snd q \<and> snd p - snd q \<le> 1 \<and>
          p = (fst q + (fst p - fst q), snd q + (snd p - snd q))"
      using a by (simp add: abs_le_iff)
    then show "\<exists>i j. - 1 \<le> i \<and> i \<le> 1 \<and> - 1 \<le> j \<and> j \<le> 1 \<and> p = (fst q + i, snd q + j)"
      by blast
  qed
  finally show ?thesis .
qed

lemma in_block_sym: "p \<in> set (block q) \<longleftrightarrow> q \<in> set (block p)"
  by (auto simp: in_block)

lemma set_contour:
  assumes "set_order ord"
  shows "set (contour ord s) =
    {p. in_bounds p \<and> p \<notin> set (get_dots s) \<and> (\<exists>q \<in> set (get_dots s). p \<in> set (block q))}"
  using assms by (auto simp: contour_def set_order_def in_bounds_def Let_def)

lemma contour_in_bounds: "p \<in> set (contour ord s) \<Longrightarrow> in_bounds p"
  by (auto simp: contour_def in_bounds_def Let_def)

lemma contour_cong: "get_dots s = get_dots t \<Longrightarrow> contour ord s = contour ord t"
  by (simp add: contour_def)

subsection \<open>The loop over the fleet\<close>

declare shot_loop.simps [simp del]

lemma get_dots_health [simp]: "get_dots (s\<lparr>health := h\<rparr>) = get_dots s"
  by (simp add: get_dots_def)

lemma get_dots_dots_list [simp]: "get_dots (s\<lparr>dots_list := h\<rparr>) = get_dots s"
  by (simp add: get_dots_def)

lemma contour_health [simp]: "contour ord (s\<lparr>health := h\<rparr>) = contour ord s"
  by (simp add: contour_def)

lemma contour_dots_list [simp]: "contour ord (s\<lparr>dots_list := h\<rparr>) = contour ord s"
  by (simp add: contour_def)

lemma reduce_health_cases:
  "reduce_health s = (if 0 < health s then Inr (s\<lparr>health := health s - 1\<rparr>)
                      else Inl (GameplayException HealthNegative))"
  by (simp add: reduce_health_def)

lemma shot_loop_skip:
  "(\<And>j. k \<le> j \<Longrightarrow> j < length (ships_list g) \<Longrightarrow> p \<notin> set (get_dots (ships_list g ! j))) \<Longrightarrow>
   shot_loop ord k p g = (Inr True, g)"
proof (induction "length (ships_list g) - k" arbitrary: k)
  case 0
  then show ?case by (subst shot_loop.simps) simp
next
  case (Suc n)
  then have k: "k < length (ships_list g)" by simp
  with Suc.prems have "p \<notin> set (get_dots (ships_list g ! k))" by simp
  moreover have "shot_loop ord (Suc k) p g = (Inr True, g)"
    using Suc.hyps(2) Suc.prems by (intro Suc.hyps(1)) auto
  ultimately show ?case using k by (subst shot_loop.simps) simp
qed

lemma shot_loop_first:
  "k \<le> j \<Longrightarrow> j < length (ships_list g) \<Longrightarrow>
   (\<And>i. k \<le> i \<Longrightarrow> i < j \<Longrightarrow> p \<notin> set (get_dots (ships_list g ! i))) \<Longrightarrow>
   shot_loop ord k p g = shot_loop ord j p g"
proof (induction "j - k" arbitrary: k)
  case 0
  then show ?case by simp
next
  case (Suc n)
  then have k: "k < j" "k < length (ships_list g)" by simp_all
  with Suc.prems have "p \<notin> set (get_dots (ships_list g ! k))" by simp
  moreover have "shot_loop ord (Suc k) p g = shot_loop ord j p g"
    using Suc.hyps(2) Suc.prems k by (intro Suc.hyps(1)) auto
  ultimately show ?case using k by (subst shot_loop.simps) simp
qed

lemma nth_del:
  "i < length xs - 1 \<Longrightarrow> k < length xs \<Longrightarrow>
   (take k xs @ drop (Suc k) xs) ! i = xs ! (if i < k then i else Suc i)"
  by (auto simp: nth_append min_def)

lemma length_del: "k < length xs \<Longrightarrow> length (take k xs @ drop (Suc k) xs) = length xs - 1"
  by auto

lemma adjacency_uniq:
  "adjacency ord ships \<Longrightarrow> k < length ships \<Longrightarrow> j < length ships \<Longrightarrow>
   p \<in> set (get_dots (ships ! k)) \<Longrightarrow> p \<in> set (get_dots (ships ! j)) \<Longrightarrow> j = k"
  unfolding adjacency_def apart_def by blast

lemma adjacency_contour:
  "adjacency ord ships \<Longrightarrow> k < length ships \<Longrightarrow> j < length ships \<Longrightarrow> j \<noteq> k \<Longrightarrow>
   p \<in> set (contour ord (ships ! k)) \<Longrightarrow> p \<notin> set (get_dots (ships ! j))"
  unfolding adjacency_def apart_def by blast

lemma shot_loop_owner:
  assumes adj: "adjacency ord (ships_list g)"
    and k: "k < length (ships_list g)"
    and p: "p \<in> set (get_dots (ships_list g ! k))"
  shows "shot_loop ord 0 p g =
     (if health (ships_list g ! k) \<le> 0 then (Inl (GameplayException HealthNegative), g)
      else if health (ships_list g ! k) = 1 then
        (Inr True,
         g\<lparr>board := foldl (set_state ''missed'') (board g) (contour ord (ships_list g ! k)),
           ships_list := take k (ships_list g) @ drop (Suc k) (ships_list g)\<rparr>)
      else (Inr True,
         g\<lparr>ships_list := (ships_list g)
              [k := (ships_list g ! k)\<lparr>health := health (ships_list g ! k) - 1\<rparr>]\<rparr>))"
proof -
  let ?S = "ships_list g"
  let ?s = "?S ! k"
  have others: "\<And>j. j < length ?S \<Longrightarrow> j \<noteq> k \<Longrightarrow> p \<notin> set (get_dots (?S ! j))"
    using adjacency_uniq [OF adj k _ p] by blast
  have start: "shot_loop ord 0 p g = shot_loop ord k p g"
    using k others by (intro shot_loop_first) auto
  show ?thesis
  proof (cases "health ?s \<le> 0")
    case True
    then show ?thesis unfolding start using k p
      by (subst shot_loop.simps) (simp add: reduce_health_cases)
  next
    case pos: False
    show ?thesis
    proof (cases "health ?s = 1")
      case True
      let ?p' = "if contour ord ?s = [] then p else last (contour ord ?s)"
      let ?g' = "g\<lparr>board := foldl (set_state ''missed'') (board g) (contour ord ?s),
                   ships_list := take k ?S @ drop (Suc k) ?S\<rparr>"
      have rest: "shot_loop ord (Suc k) ?p' ?g' = (Inr True, ?g')"
      proof (rule shot_loop_skip)
        fix j assume j: "Suc k \<le> j" "j < length (ships_list ?g')"
        then have j': "Suc j < length ?S" "Suc j \<noteq> k" using k by auto
        have nth: "ships_list ?g' ! j = ?S ! Suc j"
          using j k by (simp add: nth_append min_def)
        have "?p' \<notin> set (get_dots (?S ! Suc j))"
        proof (cases "contour ord ?s = []")
          case True
          then show ?thesis using others [OF j'] by simp
        next
          case False
          then have "last (contour ord ?s) \<in> set (contour ord ?s)" by simp
          then show ?thesis using adjacency_contour [OF adj k j'] False by simp
        qed
        with nth show "?p' \<notin> set (get_dots (ships_list ?g' ! j))" by metis
      qed
      show ?thesis unfolding start using k p True rest
        by (subst shot_loop.simps) (cases "contour ord ?s = []"; simp add: reduce_health_cases)
    next
      case False
      let ?g' = "g\<lparr>ships_list := ?S[k := ?s\<lparr>health := health ?s - 1\<rparr>]\<rparr>"
      have rest: "shot_loop ord (Suc k) p ?g' = (Inr True, ?g')"
      proof (rule shot_loop_skip)
        fix j assume j: "Suc k \<le> j" "j < length (ships_list ?g')"
        then show "p \<notin> set (get_dots (ships_list ?g' ! j))"
          using others [of j] by simp
      qed
      show ?thesis unfolding start using k p pos False rest
        by (subst shot_loop.simps) (simp add: reduce_health_cases)
    qed
  qed
qed

lemma shot_loop_none:
  "(\<And>j. j < length (ships_list g) \<Longrightarrow> p \<notin> set (get_dots (ships_list g ! j))) \<Longrightarrow>
   shot_loop ord 0 p g = (Inr True, g)"
  by (rule shot_loop_skip) simp

lemma shot_loop_inv:
  assumes P0: "P g"
    and hit: "\<And>g k. P g \<Longrightarrow> k < length (ships_list g) \<Longrightarrow> 1 < health (ships_list g ! k) \<Longrightarrow>
       P (g\<lparr>ships_list := (ships_list g)
              [k := (ships_list g ! k)\<lparr>health := health (ships_list g ! k) - 1\<rparr>]\<rparr>)"
    and sink: "\<And>g k. P g \<Longrightarrow> k < length (ships_list g) \<Longrightarrow> health (ships_list g ! k) = 1 \<Longrightarrow>
       P (g\<lparr>board := foldl (set_state ''missed'') (board g) (contour ord (ships_list g ! k)),
            ships_list := take k (ships_list g) @ drop (Suc k) (ships_list g)\<rparr>)"
  shows "P (snd (shot_loop ord k p g))"
  using P0
proof (induction "length (ships_list g) - k" arbitrary: k p g rule: less_induct)
  case less
  let ?S = "ships_list g"
  show ?case
  proof (cases "k < length ?S")
    case False
    then show ?thesis using less.prems by (subst shot_loop.simps) simp
  next
    case k: True
    show ?thesis
    proof (cases "p \<in> set (get_dots (?S ! k))")
      case False
      have "P (snd (shot_loop ord (Suc k) p g))"
        using k less.prems by (intro less.hyps) auto
      then show ?thesis using k False by (subst shot_loop.simps) simp
    next
      case p: True
      consider "health (?S ! k) \<le> 0" | "health (?S ! k) = 1" | "1 < health (?S ! k)"
        by linarith
      then show ?thesis
      proof cases
        case 1
        then show ?thesis using k p less.prems
          by (subst shot_loop.simps) (simp add: reduce_health_cases)
      next
        case 2
        let ?p' = "if contour ord (?S ! k) = [] then p else last (contour ord (?S ! k))"
        let ?g' = "g\<lparr>board := foldl (set_state ''missed'') (board g) (contour ord (?S ! k)),
                     ships_list := take k ?S @ drop (Suc k) ?S\<rparr>"
        have "P ?g'" using less.prems k 2 by (rule sink)
        then have "P (snd (shot_loop ord (Suc k) ?p' ?g'))"
          using k by (intro less.hyps) auto
        moreover have "shot_loop ord k p g = shot_loop ord (Suc k) ?p' ?g'"
          using k p 2 by (subst shot_loop.simps) (simp add: reduce_health_cases)
        ultimately show ?thesis by simp
      next
        case 3
        let ?g' = "g\<lparr>ships_list := ?S[k := (?S ! k)\<lparr>health := health (?S ! k) - 1\<rparr>]\<rparr>"
        have "P ?g'" using less.prems k 3 by (rule hit)
        then have "P (snd (shot_loop ord (Suc k) p ?g'))"
          using k by (intro less.hyps) auto
        moreover have "shot_loop ord k p g = shot_loop ord (Suc k) p ?g'"
          using k p 3 by (subst shot_loop.simps) (simp add: reduce_health_cases)
        ultimately show ?thesis by simp
      qed
    qed
  qed
qed

lemma shot_loop_result:
  "fst (shot_loop ord k p g) = Inr True \<or>
   fst (shot_loop ord k p g) = Inl (GameplayException HealthNegative)"
proof (induction "length (ships_list g) - k" arbitrary: k p g rule: less_induct)
  case less
  let ?S = "ships_list g"
  show ?case
  proof (cases "k < length ?S")
    case False
    then show ?thesis by (subst (1 2) shot_loop.simps) simp
  next
    case k: True
    let ?g1 = "g\<lparr>board := foldl (set_state ''missed'') (board g) (contour ord (?S ! k)),
                     ships_list := take k ?S @ drop (Suc k) ?S\<rparr>"
    let ?g2 = "g\<lparr>ships_list := ?S[k := (?S ! k)\<lparr>health := health (?S ! k) - 1\<rparr>]\<rparr>"
    have a: "\<And>q. fst (shot_loop ord (Suc k) q g) = Inr True \<or>
       fst (shot_loop ord (Suc k) q g) = Inl (GameplayException HealthNegative)"
      using k by (intro less.hyps) auto
    have b: "\<And>q. fst (shot_loop ord (Suc k) q ?g1) = Inr True \<or>
       fst (shot_loop ord (Suc k) q ?g1) = Inl (GameplayException HealthNegative)"
      using k by (intro less.hyps) auto
    have c: "\<And>q. fst (shot_loop ord (Suc k) q ?g2) = Inr True \<or>
       fst (shot_loop ord (Suc k) q ?g2) = Inl (GameplayException HealthNegative)"
      using k by (intro less.hyps) auto
    show ?thesis
      using k a b c by (subst (1 2) shot_loop.simps) (simp add: reduce_health_cases)
  qed
qed

subsection \<open>The adjacency rule is kept\<close>

lemma ship_ok_health [simp]: "ship_ok (s\<lparr>health := h\<rparr>) = ship_ok s"
  by (simp add: ship_ok_def)

lemma ship_ok_dots_list [simp]: "ship_ok (s\<lparr>dots_list := h\<rparr>) = ship_ok s"
  by (simp add: ship_ok_def)

lemma apart_cong:
  "get_dots s = get_dots s' \<Longrightarrow> get_dots t = get_dots t' \<Longrightarrow> apart ord s t = apart ord s' t'"
  by (simp add: apart_def contour_cong [of t t'])

lemma adjacency_del:
  assumes "adjacency ord xs" "k < length xs"
  shows "adjacency ord (take k xs @ drop (Suc k) xs)"
  unfolding adjacency_def
proof (intro allI impI)
  fix i j
  assume i: "i < length (take k xs @ drop (Suc k) xs)"
    and j: "j < length (take k xs @ drop (Suc k) xs)" and ij: "i \<noteq> j"
  let ?f = "\<lambda>i. if i < k then i else Suc i"
  from i j assms(2) have i': "i < length xs - 1" and j': "j < length xs - 1" by auto
  have "?f i < length xs" "?f j < length xs" "?f i \<noteq> ?f j" using i' j' ij by auto
  then have "apart ord (xs ! ?f i) (xs ! ?f j)"
    using assms(1) unfolding adjacency_def by blast
  then show "apart ord ((take k xs @ drop (Suc k) xs) ! i) ((take k xs @ drop (Suc k) xs) ! j)"
    by (simp only: nth_del [OF i' assms(2)] nth_del [OF j' assms(2)])
qed

lemma adjacency_update:
  assumes "adjacency ord xs" "k < length xs" "get_dots y = get_dots (xs ! k)"
  shows "adjacency ord (xs[k := y])"
  unfolding adjacency_def
proof (intro allI impI)
  fix i j
  assume i: "i < length (xs[k := y])" and j: "j < length (xs[k := y])" and ij: "i \<noteq> j"
  then have "apart ord (xs ! i) (xs ! j)" using assms(1) unfolding adjacency_def by simp
  moreover have "get_dots (xs[k := y] ! i) = get_dots (xs ! i)"
    "get_dots (xs[k := y] ! j) = get_dots (xs ! j)"
    using i j assms(2,3) by (auto simp: nth_list_update)
  ultimately show "apart ord (xs[k := y] ! i) (xs[k := y] ! j)"
    using apart_cong by blast
qed

lemma adjacency_snoc:
  assumes "adjacency ord xs" "\<forall>t \<in> set xs. apart ord s t \<and> apart ord t s"
  shows "adjacency ord (xs @ [s])"
  unfolding adjacency_def
proof (intro allI impI)
  fix i j
  assume i: "i < length (xs @ [s])" and j: "j < length (xs @ [s])" and ij: "i \<noteq> j"
  show "apart ord ((xs @ [s]) ! i) ((xs @ [s]) ! j)"
  proof (cases "i < length xs")
    case a: True
    show ?thesis
    proof (cases "j < length xs")
      case True
      then show ?thesis using a ij assms(1) unfolding adjacency_def by (simp add: nth_append)
    next
      case False
      then have "j = length xs" using j by simp
      then show ?thesis using a assms(2) by (simp add: nth_append)
    qed
  next
    case False
    then have "i = length xs" "j < length xs" using i j ij by auto
    then show ?thesis using assms(2) by (simp add: nth_append)
  qed
qed

lemma apart_sym:
  assumes "set_order ord" "ship_ok s" "apart ord s t"
  shows "apart ord t s"
  unfolding apart_def
proof (intro ballI conjI)
  fix p assume p: "p \<in> set (get_dots t)"
  show "p \<notin> set (get_dots s)" using assms(3) p unfolding apart_def by blast
  show "p \<notin> set (contour ord s)"
  proof
    assume "p \<in> set (contour ord s)"
    then obtain q where q: "q \<in> set (get_dots s)" "p \<in> set (block q)"
      unfolding set_contour [OF assms(1)] by blast
    then have "in_bounds q" using assms(2) by (simp add: ship_ok_def)
    moreover have "q \<notin> set (get_dots t)" using assms(3) q(1) unfolding apart_def by blast
    moreover have "q \<in> set (block p)" using q(2) by (simp add: in_block_sym)
    ultimately have "q \<in> set (contour ord t)"
      unfolding set_contour [OF assms(1)] using p by blast
    then show False using assms(3) q(1) unfolding apart_def by blast
  qed
qed

lemma coords_ok_foldl:
  assumes "board_wf b" "coords_ok b" "\<forall>p \<in> set ps. in_bounds p"
  shows "coords_ok (foldl (set_state s) b ps)"
  using assms unfolding coords_ok_def by (auto simp: dot_at_foldl)

lemma coords_ok_set_state:
  assumes "board_wf b" "coords_ok b" "in_bounds p"
  shows "coords_ok (set_state s b p)"
  using assms unfolding coords_ok_def by (auto simp: dot_at_set_state)

lemma set_del_subset: "set (take k xs @ drop (Suc k) xs) \<subseteq> set xs"
  using set_take_subset [of k xs] set_drop_subset [of "Suc k" xs] by auto

lemma in_occupied_dots:
  "p \<in> set (occupied_dots ord ships) \<longleftrightarrow>
     (\<exists>t \<in> set ships. p \<in> set (get_dots t) \<or> p \<in> set (contour ord t))"
  by (auto simp: occupied_dots_def)

lemma add_ship_cases:
  "add_ship ord s g =
     (if \<exists>p \<in> set (get_dots s). \<exists>t \<in> set (ships_list g).
            p \<in> set (get_dots t) \<or> p \<in> set (contour ord t)
      then (Inl (IncorrectParametersException NeedEmptyDot), g)
      else if ship_length s \<in> set (ship_length_list g) then
        (Inr (),
         g\<lparr>ship_length_list := remove1 (ship_length s) (ship_length_list g),
           ships_list := ships_list g @ [s\<lparr>dots_list := dots_list s @ get_dots s\<rparr>],
           board := foldl (set_state ''undamaged'') (board g) (get_dots s)\<rparr>)
      else (Inl (IncorrectParametersException TooManyShips), g))"
  unfolding add_ship_def in_occupied_dots ..

lemma grid_inv_add_ship:
  assumes o: "set_order ord" and g: "grid_inv ord g" and s: "ship_ok s"
  shows "grid_inv ord (snd (add_ship ord s g))"
proof (cases "fst (add_ship ord s g) = Inr ()")
  case False
  then have "snd (add_ship ord s g) = g" by (auto simp: add_ship_cases split: if_splits)
  with g show ?thesis by simp
next
  case True
  then have free: "\<forall>p \<in> set (get_dots s). \<forall>t \<in> set (ships_list g).
       p \<notin> set (get_dots t) \<and> p \<notin> set (contour ord t)"
    and g': "snd (add_ship ord s g) =
      g\<lparr>ship_length_list := remove1 (ship_length s) (ship_length_list g),
        ships_list := ships_list g @ [s\<lparr>dots_list := dots_list s @ get_dots s\<rparr>],
        board := foldl (set_state ''undamaged'') (board g) (get_dots s)\<rparr>"
    by (auto simp: add_ship_cases split: if_splits)
  let ?s = "s\<lparr>dots_list := dots_list s @ get_dots s\<rparr>"
  have inb: "\<forall>p \<in> set (get_dots s). in_bounds p" using s by (simp add: ship_ok_def)
  have "\<forall>t \<in> set (ships_list g). apart ord ?s t"
    using free by (simp add: apart_def)
  moreover have "\<forall>t \<in> set (ships_list g). apart ord t ?s"
    using calculation s by (auto intro: apart_sym [OF o])
  ultimately have "adjacency ord (ships_list g @ [?s])"
    using g by (intro adjacency_snoc) (auto simp: grid_inv_def)
  then show ?thesis
    using g s inb unfolding g' grid_inv_def
    by (simp add: board_wf_foldl coords_ok_foldl)
qed

lemma grid_inv_shot_loop:
  assumes "grid_inv ord g"
  shows "grid_inv ord (snd (shot_loop ord k p g))"
  using assms
proof (rule shot_loop_inv)
  fix g k
  assume "grid_inv ord g" "k < length (ships_list g)"
  then show "grid_inv ord (g\<lparr>ships_list := (ships_list g)
              [k := (ships_list g ! k)\<lparr>health := health (ships_list g ! k) - 1\<rparr>]\<rparr>)"
    unfolding grid_inv_def
    by (auto simp: adjacency_update dest!: set_update_subset_insert [THEN subsetD])
next
  fix g k
  assume "grid_inv ord g" "k < length (ships_list g)"
  then show "grid_inv ord
     (g\<lparr>board := foldl (set_state ''missed'') (board g) (contour ord (ships_list g ! k)),
        ships_list := take k (ships_list g) @ drop (Suc k) (ships_list g)\<rparr>)"
    unfolding grid_inv_def using set_del_subset [of k "ships_list g"]
    by (auto simp: adjacency_del board_wf_foldl coords_ok_foldl contour_in_bounds
        simp del: set_append)
qed

lemma grid_inv_shot:
  assumes "grid_inv ord g"
  shows "grid_inv ord (snd (shot ord c r g))"
proof -
  have "grid_inv ord (g\<lparr>board := set_state s (board g) (c, r)\<rparr>)"
    if "1 \<le> c \<and> c \<le> 6 \<and> 1 \<le> r \<and> r \<le> 6" for s
    using assms that unfolding grid_inv_def
    by (simp add: board_wf_set_state coords_ok_set_state in_bounds_def)
  then show ?thesis using assms
    by (simp add: shot_def grid_inv_shot_loop)
qed

lemma grid_inv_Board: "grid_inv ord Board"
  by (simp add: grid_inv_def Board_def board_wf_create coords_ok_def dot_at_create adjacency_def)

lemma reachable_grid_inv:
  assumes "set_order ord" and "reachable ord g"
  shows "grid_inv ord g"
  using assms(2)
proof (induction rule: reachable.induct)
  case reachable_Board
  show ?case by (rule grid_inv_Board)
next
  case (reachable_add_ship g s)
  then show ?case using assms(1) by (auto intro: grid_inv_add_ship)
next
  case (reachable_shot g c r)
  then show ?case by (auto intro: grid_inv_shot)
qed

subsection \<open>Placement\<close>

lemma placed_reachable: "placed ord n g \<Longrightarrow> reachable ord g"
proof (induction rule: placed.induct)
  case placed_Board
  show ?case by (rule reachable_Board)
next
  case (placed_add_ship n g l d v h s g')
  from reachable_add_ship [OF placed_add_ship.IH Ship_ok [OF placed_add_ship.hyps(2)]]
  show ?case using placed_add_ship.hyps(3) by simp
qed

lemma Ship_built_ship:
  "1 \<le> l \<Longrightarrow> l \<le> 3 \<Longrightarrow> d \<in> set DIRECTION_CHOICES \<Longrightarrow>
   \<forall>p \<in> set (get_dots (built_ship l d c r)). in_bounds p \<Longrightarrow>
   Ship l d \<lparr>column = c, row = r, state = ''hidden''\<rparr> None = Inr (built_ship l d c r)"
  by (simp add: Ship_Inr built_ship_def get_dots_def)

lemma Ship_of_ok:
  "ship_ok s \<Longrightarrow> dots_list s = [] \<Longrightarrow>
   Ship (ship_length s) (direction s) (start_point s) (Some (health s)) = Inr s"
  by (simp add: Ship_Inr ship_ok_def get_dots_def)

lemma placed_place_all:
  "placed ord n g \<Longrightarrow> list_all (\<lambda>s. ship_ok s \<and> dots_list s = []) ss \<Longrightarrow> all_placed ord ss g \<Longrightarrow>
   placed ord (n + length ss) (place_all ord ss g)"
proof (induction ss arbitrary: n g)
  case Nil
  then show ?case by simp
next
  case (Cons s ss)
  have "add_ship ord s g = (Inr (), snd (add_ship ord s g))"
    using Cons.prems(3) by (simp add: prod_eq_iff)
  moreover have "Ship (ship_length s) (direction s) (start_point s) (Some (health s)) = Inr s"
    using Cons.prems(2) by (simp add: Ship_of_ok)
  ultimately have "placed ord (Suc n) (snd (add_ship ord s g))"
    using Cons.prems(1) by (blast intro: placed_add_ship)
  then have "placed ord (Suc n + length ss) (place_all ord ss (snd (add_ship ord s g)))"
    using Cons.prems by (intro Cons.IH) simp_all
  then show ?case by simp
qed

lemma placed_count:
  "placed ord n g \<Longrightarrow>
   mset (ship_length_list g) + mset (map ship_length (ships_list g)) = mset [3, 2, 2, 1, 1, 1, 1] \<and>
   length (ships_list g) = n"
proof (induction rule: placed.induct)
  case placed_Board
  show ?case by (simp add: Board_def)
next
  case (placed_add_ship n g l d v h s g')
  from placed_add_ship.hyps(3)
  have mem: "ship_length s \<in> set (ship_length_list g)"
    and g': "g' = g\<lparr>ship_length_list := remove1 (ship_length s) (ship_length_list g),
           ships_list := ships_list g @ [s\<lparr>dots_list := dots_list s @ get_dots s\<rparr>],
           board := foldl (set_state ''undamaged'') (board g) (get_dots s)\<rparr>"
    by (auto simp: add_ship_cases split: if_splits)
  let ?s = "s\<lparr>dots_list := dots_list s @ get_dots s\<rparr>"
  from mem have eq: "mset (remove1 (ship_length s) (ship_length_list g)) + {#ship_length s#} =
      mset (ship_length_list g)" by simp
  have "mset (remove1 (ship_length s) (ship_length_list g)) +
          mset (map ship_length (ships_list g @ [?s])) =
        (mset (remove1 (ship_length s) (ship_length_list g)) + {#ship_length s#}) +
          mset (map ship_length (ships_list g))"
    by simp
  also have "\<dots> = mset (ship_length_list g) + mset (map ship_length (ships_list g))"
    by (simp only: eq)
  finally have chain: "mset (remove1 (ship_length s) (ship_length_list g)) +
          mset (map ship_length (ships_list g @ [?s])) =
        mset (ship_length_list g) + mset (map ship_length (ships_list g))" .
  have sl: "ship_length_list g' = remove1 (ship_length s) (ship_length_list g)"
    "ships_list g' = ships_list g @ [?s]"
    unfolding g' by simp_all
  show ?case
  proof (intro conjI)
    show "mset (ship_length_list g') + mset (map ship_length (ships_list g')) =
        mset [3, 2, 2, 1, 1, 1, 1]"
      unfolding sl chain using placed_add_ship.IH by blast
    show "length (ships_list g') = Suc n"
      unfolding sl using placed_add_ship.IH by simp
  qed
qed

lemma add_ship_error:
  "fst (add_ship ord s g) \<noteq> Inr () \<Longrightarrow>
   \<exists>e. add_ship ord s g = (Inl e, g) \<and> PlacementError e"
  by (auto simp: add_ship_cases split: if_splits)

lemma set_order_insertion_order: "set_order insertion_order"
  by (simp add: set_order_def insertion_order_def)

subsection \<open>The outcomes of a shot\<close>

lemma shot_owner:
  assumes inv: "grid_inv ord g" and b: "in_bounds (c, r)"
    and u: "state (dot_at (board g) (c, r)) = ''undamaged''"
    and k: "k < length (ships_list g)" and p: "(c, r) \<in> set (get_dots (ships_list g ! k))"
  shows "shot ord c r g =
     (if health (ships_list g ! k) \<le> 0 then
        (Inl (GameplayException HealthNegative),
         g\<lparr>board := set_state ''damaged'' (board g) (c, r)\<rparr>)
      else if health (ships_list g ! k) = 1 then
        (Inr True,
         g\<lparr>board := foldl (set_state ''missed'') (set_state ''damaged'' (board g) (c, r))
                      (contour ord (ships_list g ! k)),
           ships_list := take k (ships_list g) @ drop (Suc k) (ships_list g)\<rparr>)
      else (Inr True,
         g\<lparr>board := set_state ''damaged'' (board g) (c, r),
           ships_list := (ships_list g)
              [k := (ships_list g ! k)\<lparr>health := health (ships_list g ! k) - 1\<rparr>]\<rparr>))"
proof -
  let ?g0 = "g\<lparr>board := set_state ''damaged'' (board g) (c, r)\<rparr>"
  have s: "shot ord c r g = shot_loop ord 0 (c, r) ?g0"
    using b u by (simp add: shot_def in_bounds_def)
  have "adjacency ord (ships_list ?g0)" "k < length (ships_list ?g0)"
    "(c, r) \<in> set (get_dots (ships_list ?g0 ! k))"
    using inv k p by (simp_all add: grid_inv_def)
  from shot_loop_owner [OF this] show ?thesis unfolding s by simp
qed

lemma shot_no_owner:
  assumes b: "in_bounds (c, r)"
    and u: "state (dot_at (board g) (c, r)) = ''undamaged''"
    and n: "\<And>j. j < length (ships_list g) \<Longrightarrow> (c, r) \<notin> set (get_dots (ships_list g ! j))"
  shows "shot ord c r g = (Inr True, g\<lparr>board := set_state ''damaged'' (board g) (c, r)\<rparr>)"
proof -
  let ?g0 = "g\<lparr>board := set_state ''damaged'' (board g) (c, r)\<rparr>"
  have s: "shot ord c r g = shot_loop ord 0 (c, r) ?g0"
    using b u by (simp add: shot_def in_bounds_def)
  show ?thesis unfolding s using n by (intro shot_loop_none) simp
qed

lemma shot_error_cases:
  assumes "shot ord c r g = (Inl e, g')"
  shows "(e = BoardOutException ShootOutside \<and> \<not> in_bounds (c, r) \<and> g' = g) \<or>
         (e = IncorrectParametersException AlreadyShot \<and> in_bounds (c, r) \<and>
          state (dot_at (board g) (c, r)) \<noteq> ''undamaged'' \<and>
          state (dot_at (board g) (c, r)) \<noteq> ''hidden'' \<and> g' = g) \<or>
         (e = GameplayException HealthNegative \<and> in_bounds (c, r) \<and>
          state (dot_at (board g) (c, r)) = ''undamaged'')"
proof (cases "in_bounds (c, r)")
  case False
  then show ?thesis using assms by (auto simp: shot_def in_bounds_def)
next
  case b: True
  show ?thesis
  proof (cases "state (dot_at (board g) (c, r)) = ''undamaged''")
    case True
    let ?g0 = "g\<lparr>board := set_state ''damaged'' (board g) (c, r)\<rparr>"
    have "shot ord c r g = shot_loop ord 0 (c, r) ?g0"
      using b True by (simp add: shot_def in_bounds_def)
    with assms shot_loop_result [of ord 0 "(c, r)" ?g0]
    have "e = GameplayException HealthNegative" by auto
    with b True show ?thesis by simp
  next
    case False
    then show ?thesis using assms b by (auto simp: shot_def in_bounds_def split: if_splits)
  qed
qed

subsection \<open>Health and undamaged cells\<close>

lemma reachable_full_reachable: "reachable_full ord g \<Longrightarrow> reachable ord g"
  by (induction rule: reachable_full.induct) (auto intro: reachable.intros)

lemma ship_sound_cong:
  assumes "\<forall>p \<in> set (get_dots s). state (dot_at b' p) = state (dot_at b p)"
  shows "ship_sound b' s = ship_sound b s"
proof -
  have "filter (\<lambda>p. state (dot_at b' p) = ''undamaged'') (get_dots s) =
        filter (\<lambda>p. state (dot_at b p) = ''undamaged'') (get_dots s)"
    using assms by (intro filter_cong) auto
  then have "undamaged_count b' s = undamaged_count b s" by (simp add: undamaged_count_def)
  then show ?thesis using assms by (simp add: ship_sound_def)
qed

lemma ship_sound_health_cong:
  "ship_sound b (s\<lparr>dots_list := x\<rparr>) = ship_sound b s"
  by (simp add: ship_sound_def undamaged_count_def)

lemma filter_one_less:
  assumes "distinct xs" "x \<in> set xs" "P x" "\<not> Q x" "\<forall>y \<in> set xs. y \<noteq> x \<longrightarrow> Q y = P y"
  shows "length (filter Q xs) + 1 = length (filter P xs)"
  using assms
proof (induction xs)
  case Nil
  then show ?case by simp
next
  case (Cons a xs)
  show ?case
  proof (cases "a = x")
    case True
    then have "x \<notin> set xs" using Cons.prems(1) by simp
    then have "filter Q xs = filter P xs"
      using Cons.prems(5) by (intro filter_cong) auto
    then show ?thesis using True Cons.prems(3,4) by simp
  next
    case False
    then have "length (filter Q xs) + 1 = length (filter P xs)"
      using Cons.prems by (intro Cons.IH) auto
    moreover have "Q a = P a" using False Cons.prems(5) by simp
    ultimately show ?thesis by simp
  qed
qed

lemma only_undamaged:
  assumes c: "undamaged_count b s = 1" and x: "x \<in> set (get_dots s)"
    and u: "state (dot_at b x) = ''undamaged''"
    and y: "y \<in> set (get_dots s)" "y \<noteq> x"
  shows "state (dot_at b y) \<noteq> ''undamaged''"
proof
  assume uy: "state (dot_at b y) = ''undamaged''"
  let ?P = "\<lambda>p. state (dot_at b p) = ''undamaged''"
  let ?Q = "\<lambda>p. p \<noteq> x \<and> ?P p"
  have "length (filter ?Q (get_dots s)) + 1 = length (filter ?P (get_dots s))"
    using distinct_get_dots x u by (intro filter_one_less) auto
  then have "filter ?Q (get_dots s) = []" using c by (simp add: undamaged_count_def)
  then have "\<not> ?Q y" using y(1) by (simp add: filter_empty_conv)
  with y(2) uy show False by simp
qed

lemma count_after_hit:
  assumes wf: "board_wf b" and ok: "ship_ok s" and x: "x \<in> set (get_dots s)"
    and u: "state (dot_at b x) = ''undamaged''"
  shows "undamaged_count (set_state ''damaged'' b x) s + 1 = undamaged_count b s"
proof -
  have inb: "\<forall>p \<in> set (get_dots s). in_bounds p" using ok by (simp add: ship_ok_def)
  then have "\<forall>y \<in> set (get_dots s). y \<noteq> x \<longrightarrow>
      (state (dot_at (set_state ''damaged'' b x) y) = ''undamaged'') =
      (state (dot_at b y) = ''undamaged'')"
    using wf x by (simp add: dot_at_set_state)
  moreover have "state (dot_at (set_state ''damaged'' b x) x) \<noteq> ''undamaged''"
    using wf x inb by (simp add: dot_at_set_state)
  ultimately show ?thesis
    unfolding undamaged_count_def using distinct_get_dots x u
    by (intro filter_one_less) auto
qed

lemma nth_del_other:
  assumes "j < length xs" "j \<noteq> k" "k < length xs"
  shows "\<exists>i < length (take k xs @ drop (Suc k) xs). (take k xs @ drop (Suc k) xs) ! i = xs ! j"
proof (cases "j < k")
  case True
  then have "(take k xs @ drop (Suc k) xs) ! j = xs ! j" using assms by (simp add: nth_append)
  moreover have "j < length (take k xs @ drop (Suc k) xs)" using True assms by auto
  ultimately show ?thesis by blast
next
  case False
  then have j: "k < j" using assms(2) by simp
  have i: "j - 1 < length xs - 1" using j assms(1) by linarith
  have nk: "\<not> j - 1 < k" using j by linarith
  have sj: "Suc (j - 1) = j" using j by simp
  have "(take k xs @ drop (Suc k) xs) ! (j - 1) = xs ! j"
    using nth_del [OF i assms(3)] nk sj by (simp only: if_False)
  moreover have "j - 1 < length (take k xs @ drop (Suc k) xs)" using j assms by auto
  ultimately show ?thesis by blast
qed

lemma nth_del_origin:
  assumes "i < length (take k xs @ drop (Suc k) xs)" "k < length xs"
  shows "\<exists>j < length xs. j \<noteq> k \<and> (take k xs @ drop (Suc k) xs) ! i = xs ! j"
proof -
  have i: "i < length xs - 1" using assms by auto
  let ?j = "if i < k then i else Suc i"
  have "(take k xs @ drop (Suc k) xs) ! i = xs ! ?j" by (rule nth_del [OF i assms(2)])
  moreover have "?j < length xs" "?j \<noteq> k" using i by auto
  ultimately show ?thesis by blast
qed

lemma fleet_inv_Board: "fleet_inv Board"
  by (simp add: fleet_inv_def Board_def dot_at_create)

lemma fleet_invI:
  assumes "\<And>j. j < length (ships_list g) \<Longrightarrow> ship_sound (board g) (ships_list g ! j)"
    and "\<And>p. in_bounds p \<Longrightarrow> state (dot_at (board g) p) = ''undamaged'' \<Longrightarrow>
           \<exists>j < length (ships_list g). p \<in> set (get_dots (ships_list g ! j))"
  shows "fleet_inv g"
  using assms unfolding fleet_inv_def by blast

lemma fleet_inv_sound:
  "fleet_inv g \<Longrightarrow> j < length (ships_list g) \<Longrightarrow> ship_sound (board g) (ships_list g ! j)"
  unfolding fleet_inv_def by blast

lemma fleet_inv_owner:
  "fleet_inv g \<Longrightarrow> in_bounds p \<Longrightarrow> state (dot_at (board g) p) = ''undamaged'' \<Longrightarrow>
   \<exists>j < length (ships_list g). p \<in> set (get_dots (ships_list g ! j))"
  unfolding fleet_inv_def by blast

lemma grid_inv_ship_ok:
  "grid_inv ord g \<Longrightarrow> j < length (ships_list g) \<Longrightarrow> ship_ok (ships_list g ! j)"
  unfolding grid_inv_def by simp

lemma ship_ok_in_bounds: "ship_ok s \<Longrightarrow> p \<in> set (get_dots s) \<Longrightarrow> in_bounds p"
  unfolding ship_ok_def by blast

lemma fleet_inv_add_ship:
  assumes o: "set_order ord" and gi: "grid_inv ord g" and fi: "fleet_inv g"
    and s: "ship_ok s" and h: "health s = ship_length s"
  shows "fleet_inv (snd (add_ship ord s g))"
proof (cases "fst (add_ship ord s g) = Inr ()")
  case False
  then have "snd (add_ship ord s g) = g" by (auto simp: add_ship_cases split: if_splits)
  with fi show ?thesis by simp
next
  case True
  let ?S = "ships_list g"
  let ?s = "s\<lparr>dots_list := dots_list s @ get_dots s\<rparr>"
  let ?b = "foldl (set_state ''undamaged'') (board g) (get_dots s)"
  let ?g = "snd (add_ship ord s g)"
  from True have free: "\<And>p t. p \<in> set (get_dots s) \<Longrightarrow> t \<in> set ?S \<Longrightarrow> p \<notin> set (get_dots t)"
    and S': "ships_list ?g = ?S @ [?s]" and b': "board ?g = ?b"
    by (auto simp: add_ship_cases split: if_splits)
  have wf: "board_wf (board g)" using gi by (simp add: grid_inv_def)
  have inb: "\<forall>p \<in> set (get_dots s). in_bounds p" using s by (simp add: ship_ok_def)
  have at: "\<And>q. in_bounds q \<Longrightarrow> state (dot_at ?b q) =
      (if q \<in> set (get_dots s) then ''undamaged'' else state (dot_at (board g) q))"
    using wf inb by (simp add: dot_at_foldl)
  show ?thesis
  proof (rule fleet_invI)
    fix j assume j: "j < length (ships_list ?g)"
    show "ship_sound (board ?g) (ships_list ?g ! j)"
    proof (cases "j < length ?S")
      case old: True
      let ?t = "?S ! j"
      have t: "?t \<in> set ?S" using old by simp
      have "\<forall>p \<in> set (get_dots ?t). state (dot_at ?b p) = state (dot_at (board g) p)"
        using at free [OF _ t] ship_ok_in_bounds [OF grid_inv_ship_ok [OF gi old]] by auto
      then have "ship_sound ?b ?t = ship_sound (board g) ?t" by (rule ship_sound_cong)
      then show ?thesis
        using fleet_inv_sound [OF fi old] old unfolding S' b' by (simp add: nth_append)
    next
      case False
      then have "j = length ?S" using j unfolding S' by simp
      then have nth: "ships_list ?g ! j = ?s" unfolding S' by simp
      have all: "\<forall>p \<in> set (get_dots s). state (dot_at ?b p) = ''undamaged''"
        using at inb by simp
      then have "filter (\<lambda>p. state (dot_at ?b p) = ''undamaged'') (get_dots s) = get_dots s"
        by (simp add: filter_id_conv)
      then have "undamaged_count ?b ?s = length (get_dots s)"
        by (simp add: undamaged_count_def)
      then have "ship_sound ?b ?s"
        using all h s length_get_dots [OF s] by (simp add: ship_sound_def ship_ok_def)
      then show ?thesis unfolding nth b' .
    qed
  next
    fix p assume p: "in_bounds p" "state (dot_at (board ?g) p) = ''undamaged''"
    show "\<exists>j < length (ships_list ?g). p \<in> set (get_dots (ships_list ?g ! j))"
    proof (cases "p \<in> set (get_dots s)")
      case True
      then have "length ?S < length (ships_list ?g) \<and> p \<in> set (get_dots (ships_list ?g ! length ?S))"
        unfolding S' by simp
      then show ?thesis by blast
    next
      case False
      then have "state (dot_at (board g) p) = ''undamaged''"
        using p at unfolding b' by simp
      then obtain j where "j < length ?S" "p \<in> set (get_dots (?S ! j))"
        using fleet_inv_owner [OF fi p(1)] by blast
      then have "j < length (ships_list ?g) \<and> p \<in> set (get_dots (ships_list ?g ! j))"
        unfolding S' by (simp add: nth_append)
      then show ?thesis by blast
    qed
  qed
qed

lemma shot_out:
  "\<not> in_bounds (c, r) \<Longrightarrow> shot ord c r g = (Inl (BoardOutException ShootOutside), g)"
  by (auto simp: shot_def in_bounds_def)

lemma shot_hidden:
  "in_bounds (c, r) \<Longrightarrow> state (dot_at (board g) (c, r)) = ''hidden'' \<Longrightarrow>
   shot ord c r g = (Inr False, g\<lparr>board := set_state ''missed'' (board g) (c, r)\<rparr>)"
  by (auto simp: shot_def in_bounds_def)

lemma shot_repeat:
  "in_bounds (c, r) \<Longrightarrow> state (dot_at (board g) (c, r)) \<noteq> ''undamaged'' \<Longrightarrow>
   state (dot_at (board g) (c, r)) \<noteq> ''hidden'' \<Longrightarrow>
   shot ord c r g = (Inl (IncorrectParametersException AlreadyShot), g)"
  by (auto simp: shot_def in_bounds_def)

lemma fleet_inv_shot:
  assumes gi: "grid_inv ord g" and fi: "fleet_inv g"
  shows "fleet_inv (snd (shot ord c r g))"
proof (cases "in_bounds (c, r)")
  case False
  then show ?thesis using fi by (simp add: shot_out)
next
  case inb: True
  let ?S = "ships_list g"
  let ?b = "board g"
  let ?p = "(c, r)"
  have wf: "board_wf ?b" using gi by (simp add: grid_inv_def)
  have adj: "adjacency ord ?S" using gi by (simp add: grid_inv_def)
  have dots_inb: "\<And>j q. j < length ?S \<Longrightarrow> q \<in> set (get_dots (?S ! j)) \<Longrightarrow> in_bounds q"
    using ship_ok_in_bounds [OF grid_inv_ship_ok [OF gi]] by blast
  consider (u) "state (dot_at ?b ?p) = ''undamaged''"
    | (h) "state (dot_at ?b ?p) = ''hidden''"
    | (o) "state (dot_at ?b ?p) \<noteq> ''undamaged''" "state (dot_at ?b ?p) \<noteq> ''hidden''"
    by blast
  then show ?thesis
  proof cases
    case o
    then show ?thesis using fi inb by (simp add: shot_repeat)
  next
    case h
    let ?b1 = "set_state ''missed'' ?b ?p"
    have g': "snd (shot ord c r g) = g\<lparr>board := ?b1\<rparr>"
      using h inb by (simp add: shot_hidden)
    have at: "\<And>q. in_bounds q \<Longrightarrow> state (dot_at ?b1 q) =
        (if q = ?p then ''missed'' else state (dot_at ?b q))"
      using wf inb by (simp add: dot_at_set_state)
    have notin: "\<And>j. j < length ?S \<Longrightarrow> ?p \<notin> set (get_dots (?S ! j))"
      using fleet_inv_sound [OF fi] h unfolding ship_sound_def by fastforce
    show ?thesis unfolding g'
    proof (rule fleet_invI)
      fix j assume j: "j < length (ships_list (g\<lparr>board := ?b1\<rparr>))"
      then have j': "j < length ?S" by simp
      have "\<forall>q \<in> set (get_dots (?S ! j)). state (dot_at ?b1 q) = state (dot_at ?b q)"
        using at dots_inb [OF j'] notin [OF j'] by auto
      then have "ship_sound ?b1 (?S ! j) = ship_sound ?b (?S ! j)" by (rule ship_sound_cong)
      then show "ship_sound (board (g\<lparr>board := ?b1\<rparr>)) (ships_list (g\<lparr>board := ?b1\<rparr>) ! j)"
        using fleet_inv_sound [OF fi j'] by simp
    next
      fix q assume q: "in_bounds q" "state (dot_at (board (g\<lparr>board := ?b1\<rparr>)) q) = ''undamaged''"
      then have "state (dot_at ?b q) = ''undamaged''" using at [OF q(1)] by (auto split: if_splits)
      from fleet_inv_owner [OF fi q(1) this]
      show "\<exists>j < length (ships_list (g\<lparr>board := ?b1\<rparr>)).
          q \<in> set (get_dots (ships_list (g\<lparr>board := ?b1\<rparr>) ! j))" by simp
    qed
  next
    case u
    obtain k where k: "k < length ?S" and pk: "?p \<in> set (get_dots (?S ! k))"
      using fleet_inv_owner [OF fi inb u] by blast
    let ?s = "?S ! k"
    have sound: "ship_sound ?b ?s" by (rule fleet_inv_sound [OF fi k])
    then have hpos: "1 \<le> health ?s" and hcount: "health ?s = int (undamaged_count ?b ?s)"
      by (simp_all add: ship_sound_def)
    have others: "\<And>j. j < length ?S \<Longrightarrow> j \<noteq> k \<Longrightarrow> ?p \<notin> set (get_dots (?S ! j))"
      using adjacency_uniq [OF adj k _ pk] by blast
    let ?b1 = "set_state ''damaged'' ?b ?p"
    have at1: "\<And>q. in_bounds q \<Longrightarrow> state (dot_at ?b1 q) =
        (if q = ?p then ''damaged'' else state (dot_at ?b q))"
      using wf inb by (simp add: dot_at_set_state)
    have wf1: "board_wf ?b1" using wf by (rule board_wf_set_state)
    show ?thesis
    proof (cases "health ?s = 1")
      case one: True
      let ?C = "contour ord ?s"
      let ?b2 = "foldl (set_state ''missed'') ?b1 ?C"
      let ?S' = "take k ?S @ drop (Suc k) ?S"
      let ?g' = "g\<lparr>board := ?b2, ships_list := ?S'\<rparr>"
      have g': "snd (shot ord c r g) = ?g'"
        using shot_owner [OF gi inb u k pk] one by simp
      have at2: "\<And>q. in_bounds q \<Longrightarrow> state (dot_at ?b2 q) =
          (if q \<in> set ?C then ''missed'' else if q = ?p then ''damaged''
           else state (dot_at ?b q))"
        using wf1 at1 by (simp add: dot_at_foldl contour_in_bounds)
      have same: "\<And>j q. j < length ?S \<Longrightarrow> j \<noteq> k \<Longrightarrow> q \<in> set (get_dots (?S ! j)) \<Longrightarrow>
          state (dot_at ?b2 q) = state (dot_at ?b q)"
      proof -
        fix j q assume j: "j < length ?S" "j \<noteq> k" and q: "q \<in> set (get_dots (?S ! j))"
        have "q \<notin> set ?C" using adjacency_contour [OF adj k j] q by blast
        moreover have "q \<noteq> ?p" using others [OF j] q by blast
        ultimately show "state (dot_at ?b2 q) = state (dot_at ?b q)"
          using at2 [OF dots_inb [OF j(1) q]] by simp
      qed
      show ?thesis unfolding g'
      proof (rule fleet_invI)
        fix i assume "i < length (ships_list ?g')"
        then have i: "i < length ?S'" by simp
        from nth_del_origin [OF i k] obtain j where
          j: "j < length ?S" "j \<noteq> k" and nth: "?S' ! i = ?S ! j" by blast
        have "\<forall>q \<in> set (get_dots (?S ! j)). state (dot_at ?b2 q) = state (dot_at ?b q)"
          using same [OF j] by blast
        then have "ship_sound ?b2 (?S ! j) = ship_sound ?b (?S ! j)" by (rule ship_sound_cong)
        then have "ship_sound ?b2 (?S' ! i)"
          using fleet_inv_sound [OF fi j(1)] unfolding nth by simp
        then show "ship_sound (board ?g') (ships_list ?g' ! i)" by simp
      next
        fix q assume q: "in_bounds q" "state (dot_at (board ?g') q) = ''undamaged''"
        then have q2: "state (dot_at ?b2 q) = ''undamaged''" by simp
        then have qn: "q \<notin> set ?C" "q \<noteq> ?p" and qu: "state (dot_at ?b q) = ''undamaged''"
          using at2 [OF q(1)] by (auto split: if_splits)
        obtain j where j: "j < length ?S" and qj: "q \<in> set (get_dots (?S ! j))"
          using fleet_inv_owner [OF fi q(1) qu] by blast
        have "j \<noteq> k"
        proof
          assume "j = k"
          then have "q \<in> set (get_dots ?s)" using qj by simp
          moreover have "undamaged_count ?b ?s = 1" using hcount one by simp
          ultimately have "state (dot_at ?b q) \<noteq> ''undamaged''"
            using only_undamaged [OF _ pk u _ qn(2)] by blast
          with qu show False by simp
        qed
        from nth_del_other [OF j this k] obtain i where
          "i < length ?S'" "?S' ! i = ?S ! j" by blast
        then have "i < length (ships_list ?g') \<and> q \<in> set (get_dots (ships_list ?g' ! i))"
          using qj by simp
        then show "\<exists>i < length (ships_list ?g'). q \<in> set (get_dots (ships_list ?g' ! i))"
          by blast
      qed
    next
      case more: False
      let ?s' = "?s\<lparr>health := health ?s - 1\<rparr>"
      let ?S' = "?S[k := ?s']"
      let ?g' = "g\<lparr>board := ?b1, ships_list := ?S'\<rparr>"
      have g': "snd (shot ord c r g) = ?g'"
        using shot_owner [OF gi inb u k pk] more hpos by simp
      have ok: "ship_ok ?s" by (rule grid_inv_ship_ok [OF gi k])
      have cnt: "undamaged_count ?b1 ?s + 1 = undamaged_count ?b ?s"
        by (rule count_after_hit [OF wf ok pk u])
      have states: "\<forall>q \<in> set (get_dots ?s).
          state (dot_at ?b1 q) = ''undamaged'' \<or> state (dot_at ?b1 q) = ''damaged''"
        using sound at1 dots_inb [OF k] unfolding ship_sound_def by auto
      have sound': "ship_sound ?b1 ?s'"
        using hpos more hcount cnt states
        by (simp add: ship_sound_def undamaged_count_def)
      show ?thesis unfolding g'
      proof (rule fleet_invI)
        fix j assume "j < length (ships_list ?g')"
        then have j: "j < length ?S" by simp
        show "ship_sound (board ?g') (ships_list ?g' ! j)"
        proof (cases "j = k")
          case True
          then show ?thesis using sound' k by simp
        next
          case False
          have "\<forall>q \<in> set (get_dots (?S ! j)). state (dot_at ?b1 q) = state (dot_at ?b q)"
            using at1 dots_inb [OF j] others [OF j False] by auto
          then have "ship_sound ?b1 (?S ! j) = ship_sound ?b (?S ! j)"
            by (rule ship_sound_cong)
          then show ?thesis using fleet_inv_sound [OF fi j] False by simp
        qed
      next
        fix q assume q: "in_bounds q" "state (dot_at (board ?g') q) = ''undamaged''"
        then have "state (dot_at ?b q) = ''undamaged''"
          using at1 [OF q(1)] by (auto split: if_splits)
        then obtain j where j: "j < length ?S" and qj: "q \<in> set (get_dots (?S ! j))"
          using fleet_inv_owner [OF fi q(1)] by blast
        have "get_dots (?S' ! j) = get_dots (?S ! j)"
          using j k by (cases "j = k") simp_all
        then have "j < length (ships_list ?g') \<and> q \<in> set (get_dots (ships_list ?g' ! j))"
          using j qj by simp
        then show "\<exists>j < length (ships_list ?g'). q \<in> set (get_dots (ships_list ?g' ! j))"
          by blast
      qed
    qed
  qed
qed

lemma reachable_full_fleet_inv:
  assumes "set_order ord" and "reachable_full ord g"
  shows "fleet_inv g"
  using assms(2)
proof (induction rule: reachable_full.induct)
  case reachable_full_Board
  show ?case by (rule fleet_inv_Board)
next
  case (reachable_full_add_ship g s)
  have gi: "grid_inv ord g"
    using reachable_grid_inv [OF assms(1) reachable_full_reachable] reachable_full_add_ship.hyps(1)
    by blast
  show ?case
    using assms(1) gi reachable_full_add_ship.IH reachable_full_add_ship.hyps(2,3)
    by (rule fleet_inv_add_ship)
next
  case (reachable_full_shot g c r)
  have gi: "grid_inv ord g"
    using reachable_grid_inv [OF assms(1) reachable_full_reachable] reachable_full_shot.hyps(1)
    by blast
  then show ?case using reachable_full_shot.IH by (rule fleet_inv_shot)
qed

lemma shot_undamaged_full:
  assumes o: "set_order ord" and re: "reachable_full ord g" and inb: "in_bounds (c, r)"
    and u: "state (dot_at (board g) (c, r)) = ''undamaged''"
  shows "fst (shot ord c r g) = Inr True"
proof -
  have gi: "grid_inv ord g"
    by (rule reachable_grid_inv [OF o reachable_full_reachable [OF re]])
  have fi: "fleet_inv g" by (rule reachable_full_fleet_inv [OF o re])
  obtain k where k: "k < length (ships_list g)" and pk: "(c, r) \<in> set (get_dots (ships_list g ! k))"
    using fleet_inv_owner [OF fi inb u] by blast
  have "1 \<le> health (ships_list g ! k)"
    using fleet_inv_sound [OF fi k] by (simp add: ship_sound_def)
  then show ?thesis using shot_owner [OF gi inb u k pk] by simp
qed

lemma shot_undamaged_result:
  assumes inb: "in_bounds (c, r)" and u: "state (dot_at (board g) (c, r)) = ''undamaged''"
  shows "fst (shot ord c r g) = Inr True \<or>
         fst (shot ord c r g) = Inl (GameplayException HealthNegative)"
proof -
  have "shot ord c r g =
      shot_loop ord 0 (c, r) (g\<lparr>board := set_state ''damaged'' (board g) (c, r)\<rparr>)"
    using inb u by (simp add: shot_def in_bounds_def)
  then show ?thesis using shot_loop_result by simp
qed

subsection \<open>Cell states under shots\<close>

lemma advances_refl: "advances s s"
  by (simp add: advances_def)

lemma advances_trans: "advances s s' \<Longrightarrow> advances s' s'' \<Longrightarrow> advances s s''"
  unfolding advances_def by auto

lemma board_step_refl: "board_wf b \<Longrightarrow> board_step b b"
  by (simp add: board_step_def advances_refl)

lemma board_step_trans: "board_step b b' \<Longrightarrow> board_step b' b'' \<Longrightarrow> board_step b b''"
  unfolding board_step_def by (metis advances_trans)

lemma board_step_missed:
  assumes "board_wf b" "\<forall>p \<in> set ps. in_bounds p"
  shows "board_step b (foldl (set_state ''missed'') b ps)"
  unfolding board_step_def using assms
  by (simp add: board_wf_foldl dot_at_foldl advances_def)

lemma board_step_shot_loop:
  assumes "board_wf (board g)"
  shows "board_step (board g) (board (snd (shot_loop ord k p g)))"
proof -
  have "board_step (board g) (board g)" using assms by (rule board_step_refl)
  then show ?thesis
  proof (rule shot_loop_inv [where P = "\<lambda>g'. board_step (board g) (board g')"])
    fix g' :: grid and k
    assume "board_step (board g) (board g')"
    then show "board_step (board g) (board (g'\<lparr>ships_list := (ships_list g')
              [k := (ships_list g' ! k)\<lparr>health := health (ships_list g' ! k) - 1\<rparr>]\<rparr>))"
      by simp
  next
    fix g' :: grid and k
    assume a: "board_step (board g) (board g')"
    then have "board_wf (board g')" by (simp add: board_step_def)
    then have "board_step (board g')
        (foldl (set_state ''missed'') (board g') (contour ord (ships_list g' ! k)))"
      by (intro board_step_missed) (auto simp: contour_in_bounds)
    with a show "board_step (board g)
       (board (g'\<lparr>board := foldl (set_state ''missed'') (board g')
                   (contour ord (ships_list g' ! k)),
            ships_list := take k (ships_list g') @ drop (Suc k) (ships_list g')\<rparr>))"
      by (auto intro: board_step_trans)
  qed
qed

lemma board_step_shot:
  assumes wf: "board_wf (board g)"
  shows "board_step (board g) (board (snd (shot ord c r g)))"
proof (cases "in_bounds (c, r)")
  case False
  then show ?thesis using wf by (simp add: shot_out board_step_refl)
next
  case inb: True
  consider (u) "state (dot_at (board g) (c, r)) = ''undamaged''"
    | (h) "state (dot_at (board g) (c, r)) = ''hidden''"
    | (o) "state (dot_at (board g) (c, r)) \<noteq> ''undamaged''"
          "state (dot_at (board g) (c, r)) \<noteq> ''hidden''"
    by blast
  then show ?thesis
  proof cases
    case o
    then show ?thesis using wf inb by (simp add: shot_repeat board_step_refl)
  next
    case h
    have "board_step (board g) (set_state ''missed'' (board g) (c, r))"
      unfolding board_step_def using wf inb
      by (simp add: board_wf_set_state dot_at_set_state advances_def)
    then show ?thesis using h inb by (simp add: shot_hidden)
  next
    case u
    let ?g0 = "g\<lparr>board := set_state ''damaged'' (board g) (c, r)\<rparr>"
    have 1: "board_step (board g) (board ?g0)"
      unfolding board_step_def using wf inb u
      by (simp add: board_wf_set_state dot_at_set_state advances_def)
    then have "board_wf (board ?g0)" by (simp add: board_step_def)
    then have 2: "board_step (board ?g0) (board (snd (shot_loop ord 0 (c, r) ?g0)))"
      by (rule board_step_shot_loop)
    have "shot ord c r g = shot_loop ord 0 (c, r) ?g0"
      using inb u by (simp add: shot_def in_bounds_def)
    then show ?thesis using board_step_trans [OF 1 2] by simp
  qed
qed

lemma board_step_shoot_all:
  "board_wf (board g) \<Longrightarrow> board_step (board g) (board (shoot_all ord ps g))"
proof (induction ps arbitrary: g)
  case Nil
  then show ?case by (simp add: board_step_refl)
next
  case (Cons p ps)
  obtain c r where p: "p = (c, r)" by (cases p)
  have 1: "board_step (board g) (board (snd (shot ord c r g)))"
    using Cons.prems by (rule board_step_shot)
  then have "board_wf (board (snd (shot ord c r g)))" by (simp add: board_step_def)
  then have "board_step (board (snd (shot ord c r g)))
      (board (shoot_all ord ps (snd (shot ord c r g))))" by (rule Cons.IH)
  with 1 show ?case unfolding p by (auto intro: board_step_trans)
qed

lemma add_ship_board:
  assumes wf: "board_wf (board g)" and s: "ship_ok s" and p: "in_bounds p"
  shows "dot_at (board (snd (add_ship ord s g))) p =
     (if fst (add_ship ord s g) = Inr () \<and> p \<in> set (get_dots s)
      then (dot_at (board g) p)\<lparr>state := ''undamaged''\<rparr> else dot_at (board g) p)"
proof -
  have inb: "\<forall>q \<in> set (get_dots s). in_bounds q" using s by (simp add: ship_ok_def)
  show ?thesis
    using wf inb p by (simp add: add_ship_cases dot_at_foldl)
qed

subsection \<open>One shot, one cell\<close>

lemma shot_move_target:
  assumes wf: "board_wf b" and t: "in_bounds (c, r)" and p: "in_bounds p"
    and x: "(state (dot_at b (c, r)) = ''undamaged'' \<and> x = ''damaged'') \<or>
            (state (dot_at b (c, r)) = ''hidden'' \<and> x = ''missed'')"
  shows "shot_move ord c r g p (state (dot_at b p)) (state (dot_at (set_state x b (c, r)) p))"
proof (cases "p = (c, r)")
  case True
  then show ?thesis using wf t x by (auto simp: shot_move_def dot_at_set_state)
next
  case False
  then show ?thesis using wf t p by (simp add: shot_move_def dot_at_set_state)
qed

lemma shot_cell:
  assumes gi: "grid_inv ord g" and p: "in_bounds p"
  shows "shot_move ord c r g p (state (dot_at (board g) p))
           (state (dot_at (board (snd (shot ord c r g))) p))"
proof (cases "in_bounds (c, r)")
  case False
  then show ?thesis by (simp add: shot_out shot_move_def)
next
  case inb: True
  let ?S = "ships_list g"
  let ?b = "board g"
  have wf: "board_wf ?b" using gi by (simp add: grid_inv_def)
  consider (u) "state (dot_at ?b (c, r)) = ''undamaged''"
    | (h) "state (dot_at ?b (c, r)) = ''hidden''"
    | (o) "state (dot_at ?b (c, r)) \<noteq> ''undamaged''" "state (dot_at ?b (c, r)) \<noteq> ''hidden''"
    by blast
  then show ?thesis
  proof cases
    case o
    then show ?thesis using inb by (simp add: shot_repeat shot_move_def)
  next
    case h
    have "shot_move ord c r g p (state (dot_at ?b p))
        (state (dot_at (set_state ''missed'' ?b (c, r)) p))"
      using h by (intro shot_move_target [OF wf inb p]) simp
    then show ?thesis using h inb by (simp add: shot_hidden)
  next
    case u
    have dmg: "shot_move ord c r g p (state (dot_at ?b p))
        (state (dot_at (set_state ''damaged'' ?b (c, r)) p))"
      using u by (intro shot_move_target [OF wf inb p]) simp
    show ?thesis
    proof (cases "\<exists>k < length ?S. (c, r) \<in> set (get_dots (?S ! k))")
      case False
      then have "shot ord c r g = (Inr True, g\<lparr>board := set_state ''damaged'' ?b (c, r)\<rparr>)"
        using inb u by (intro shot_no_owner) auto
      then show ?thesis using dmg by simp
    next
      case True
      then obtain k where k: "k < length ?S" and pk: "(c, r) \<in> set (get_dots (?S ! k))"
        by blast
      note so = shot_owner [OF gi inb u k pk]
      show ?thesis
      proof (cases "health (?S ! k) = 1")
        case False
        then have "board (snd (shot ord c r g)) = set_state ''damaged'' ?b (c, r)"
          unfolding so by simp
        then show ?thesis using dmg by simp
      next
        case one: True
        let ?C = "contour ord (?S ! k)"
        let ?b1 = "set_state ''damaged'' ?b (c, r)"
        have b': "board (snd (shot ord c r g)) = foldl (set_state ''missed'') ?b1 ?C"
          unfolding so using one by simp
        have wf1: "board_wf ?b1" using wf by (rule board_wf_set_state)
        have at: "state (dot_at (foldl (set_state ''missed'') ?b1 ?C) p) =
            (if p \<in> set ?C then ''missed'' else state (dot_at ?b1 p))"
          using wf1 p by (simp add: dot_at_foldl contour_in_bounds)
        show ?thesis
        proof (cases "p \<in> set ?C")
          case True
          have "sunk_by ord c r g k" using k pk u one by (simp add: sunk_by_def)
          then show ?thesis unfolding b' at using True k by (auto simp: shot_move_def)
        next
          case False
          then show ?thesis unfolding b' at using dmg by simp
        qed
      qed
    qed
  qed
qed

lemma shot_cell_full:
  assumes o: "set_order ord" and re: "reachable_full ord g" and p: "in_bounds p"
    and u: "state (dot_at (board g) p) = ''undamaged''"
  shows "state (dot_at (board (snd (shot ord c r g))) p) = ''undamaged'' \<or>
         (p = (c, r) \<and> state (dot_at (board (snd (shot ord c r g))) p) = ''damaged'')"
proof -
  let ?S = "ships_list g"
  have gi: "grid_inv ord g"
    by (rule reachable_grid_inv [OF o reachable_full_reachable [OF re]])
  have fi: "fleet_inv g" by (rule reachable_full_fleet_inv [OF o re])
  have adj: "adjacency ord ?S" using gi by (simp add: grid_inv_def)
  have no: "\<not> (\<exists>k < length ?S. sunk_by ord c r g k \<and> p \<in> set (contour ord (?S ! k)))"
  proof
    assume "\<exists>k < length ?S. sunk_by ord c r g k \<and> p \<in> set (contour ord (?S ! k))"
    then obtain k where k: "k < length ?S" and pc: "p \<in> set (contour ord (?S ! k))" by blast
    obtain j where j: "j < length ?S" and pj: "p \<in> set (get_dots (?S ! j))"
      using fleet_inv_owner [OF fi p u] by blast
    have "p \<notin> set (get_dots (?S ! k))" using pc unfolding set_contour [OF o] by blast
    with pj have "j \<noteq> k" by blast
    from adjacency_contour [OF adj k j this pc] pj show False by blast
  qed
  from shot_cell [OF gi p, of c r] u no show ?thesis
    by (auto simp: shot_move_def)
qed

subsection \<open>Sinking\<close>

lemma sink_general:
  assumes gi: "grid_inv ord g" and k: "k < length (ships_list g)"
    and pk: "(c, r) \<in> set (get_dots (ships_list g ! k))"
    and u: "state (dot_at (board g) (c, r)) = ''undamaged''"
    and one: "health (ships_list g ! k) = 1"
  shows "shot ord c r g =
           (Inr True,
            g\<lparr>board := foldl (set_state ''missed'') (set_state ''damaged'' (board g) (c, r))
                        (contour ord (ships_list g ! k)),
              ships_list := take k (ships_list g) @ drop (Suc k) (ships_list g)\<rparr>)"
    and "\<forall>p \<in> set (contour ord (ships_list g ! k)).
           state (dot_at (board (snd (shot ord c r g))) p) = ''missed''"
    and "\<forall>j < length (ships_list g). j \<noteq> k \<longrightarrow>
           ships_list g ! j \<in> set (ships_list (snd (shot ord c r g))) \<and>
           (\<forall>p \<in> set (get_dots (ships_list g ! j)).
              dot_at (board (snd (shot ord c r g))) p = dot_at (board g) p)"
proof -
  let ?S = "ships_list g"
  let ?C = "contour ord (?S ! k)"
  let ?b1 = "set_state ''damaged'' (board g) (c, r)"
  let ?b2 = "foldl (set_state ''missed'') ?b1 ?C"
  have inb: "in_bounds (c, r)"
    using ship_ok_in_bounds [OF grid_inv_ship_ok [OF gi k] pk] .
  have wf: "board_wf (board g)" using gi by (simp add: grid_inv_def)
  have adj: "adjacency ord ?S" using gi by (simp add: grid_inv_def)
  have wf1: "board_wf ?b1" using wf by (rule board_wf_set_state)
  show sh: "shot ord c r g =
           (Inr True, g\<lparr>board := ?b2, ships_list := take k ?S @ drop (Suc k) ?S\<rparr>)"
    using shot_owner [OF gi inb u k pk] one by simp
  have at2: "\<And>q. in_bounds q \<Longrightarrow> dot_at ?b2 q =
      (if q \<in> set ?C then (dot_at ?b1 q)\<lparr>state := ''missed''\<rparr> else dot_at ?b1 q)"
    using wf1 by (simp add: dot_at_foldl contour_in_bounds)
  show "\<forall>p \<in> set ?C. state (dot_at (board (snd (shot ord c r g))) p) = ''missed''"
    unfolding sh using at2 contour_in_bounds by simp
  show "\<forall>j < length ?S. j \<noteq> k \<longrightarrow>
           ?S ! j \<in> set (ships_list (snd (shot ord c r g))) \<and>
           (\<forall>p \<in> set (get_dots (?S ! j)).
              dot_at (board (snd (shot ord c r g))) p = dot_at (board g) p)"
  proof (intro allI impI conjI ballI)
    fix j assume j: "j < length ?S" "j \<noteq> k"
    from nth_del_other [OF j k] obtain i where
      "i < length (take k ?S @ drop (Suc k) ?S)" "(take k ?S @ drop (Suc k) ?S) ! i = ?S ! j"
      by blast
    then have "?S ! j \<in> set (take k ?S @ drop (Suc k) ?S)"
      by (metis nth_mem)
    then show "?S ! j \<in> set (ships_list (snd (shot ord c r g)))" unfolding sh by simp
    fix p assume p: "p \<in> set (get_dots (?S ! j))"
    have pb: "in_bounds p" using ship_ok_in_bounds [OF grid_inv_ship_ok [OF gi j(1)] p] .
    have "p \<notin> set ?C" using adjacency_contour [OF adj k j] p by blast
    moreover have "p \<noteq> (c, r)" using adjacency_uniq [OF adj k j(1) pk] p j(2) by blast
    ultimately have "dot_at ?b2 p = dot_at (board g) p"
      using at2 [OF pb] wf inb pb by (simp add: dot_at_set_state)
    then show "dot_at (board (snd (shot ord c r g))) p = dot_at (board g) p"
      unfolding sh by simp
  qed
qed

lemma hit_general:
  assumes gi: "grid_inv ord g" and k: "k < length (ships_list g)"
    and pk: "(c, r) \<in> set (get_dots (ships_list g ! k))"
    and u: "state (dot_at (board g) (c, r)) = ''undamaged''"
    and more: "1 < health (ships_list g ! k)"
  shows "shot ord c r g =
           (Inr True,
            g\<lparr>board := set_state ''damaged'' (board g) (c, r),
              ships_list := (ships_list g)
                 [k := (ships_list g ! k)\<lparr>health := health (ships_list g ! k) - 1\<rparr>]\<rparr>)"
proof -
  have inb: "in_bounds (c, r)"
    using ship_ok_in_bounds [OF grid_inv_ship_ok [OF gi k] pk] .
  show ?thesis using shot_owner [OF gi inb u k pk] more by simp
qed

lemma get_dots_3_2: "get_dots (built_ship 3 ''horizontal'' 3 2) = [(3, 2), (4, 2), (5, 2)]"
  by code_simp

lemma Ship_3_2:
  "Ship 3 ''horizontal'' \<lparr>column = 3, row = 2, state = ''hidden''\<rparr> None =
     Inr (built_ship 3 ''horizontal'' 3 2)"
  by code_simp

lemma scenario_3_2:
  assumes o: "set_order ord"
    and g1_def: "g1 = snd (add_ship ord (built_ship 3 ''horizontal'' 3 2) Board)"
  shows "fst (add_ship ord (built_ship 3 ''horizontal'' 3 2) Board) = Inr ()"
    and "fst (shot ord 3 2 g1) = Inr True"
    and "map health (ships_list (shoot_all ord [(3, 2)] g1)) = [2]"
    and "fst (shot ord 4 2 (shoot_all ord [(3, 2)] g1)) = Inr True"
    and "map health (ships_list (shoot_all ord [(3, 2), (4, 2)] g1)) = [1]"
    and "fst (shot ord 5 2 (shoot_all ord [(3, 2), (4, 2)] g1)) = Inr True"
    and "ships_list (shoot_all ord [(3, 2), (4, 2), (5, 2)] g1) = []"
    and "\<forall>p. in_bounds p \<and> p \<notin> {(3, 2), (4, 2), (5, 2)} \<and>
             (\<exists>q \<in> {(3, 2), (4, 2), (5, 2)}. adjacent8 p q) \<longrightarrow>
             state (dot_at (board (shoot_all ord [(3, 2), (4, 2), (5, 2)] g1)) p) = ''missed''"
proof -
  let ?s = "built_ship 3 ''horizontal'' 3 2"
  let ?s' = "?s\<lparr>dots_list := dots_list ?s @ get_dots ?s\<rparr>"
  define g2 where "g2 = snd (shot ord 3 2 g1)"
  define g3 where "g3 = snd (shot ord 4 2 g2)"
  define g4 where "g4 = snd (shot ord 5 2 g3)"
  have sa: "shoot_all ord [(3, 2)] g1 = g2" "shoot_all ord [(3, 2), (4, 2)] g1 = g3"
    "shoot_all ord [(3, 2), (4, 2), (5, 2)] g1 = g4"
    by (simp_all add: g2_def g3_def g4_def)
  have len: "ship_length ?s = 3" "health ?s = 3" by (simp_all add: built_ship_def)
  have add: "add_ship ord ?s Board =
      (Inr (), Board\<lparr>ship_length_list := remove1 3 (ship_length_list Board),
                     ships_list := [?s'],
                     board := foldl (set_state ''undamaged'') (board Board) (get_dots ?s)\<rparr>)"
    by (simp add: add_ship_cases len) (simp add: Board_def)
  show "fst (add_ship ord ?s Board) = Inr ()" by (simp add: add)
  have S1: "ships_list g1 = [?s']" by (simp add: g1_def add)
  have "board g1 = foldl (set_state ''undamaged'') (board Board) (get_dots ?s)"
    by (simp add: g1_def add)
  then have b1: "board g1 = foldl (set_state ''undamaged'') create_board (get_dots ?s)"
    by (simp add: Board_def)
  have r1: "reachable ord g1"
    unfolding g1_def by (rule reachable_add_ship [OF reachable_Board Ship_ok [OF Ship_3_2]])
  have r2: "reachable ord g2" unfolding g2_def using r1 by (rule reachable_shot)
  have r3: "reachable ord g3" unfolding g3_def using r2 by (rule reachable_shot)
  note gi1 = reachable_grid_inv [OF o r1]
  note gi2 = reachable_grid_inv [OF o r2]
  note gi3 = reachable_grid_inv [OF o r3]
  have wf1: "board_wf (board g1)" using gi1 by (simp add: grid_inv_def)
  have wf2: "board_wf (board g2)" using gi2 by (simp add: grid_inv_def)
  have wf3: "board_wf (board g3)" using gi3 by (simp add: grid_inv_def)
  have ib: "in_bounds (3, 2)" "in_bounds (4, 2)" "in_bounds (5, 2)"
    by (simp_all add: in_bounds_def)
  have st1: "\<And>q. in_bounds q \<Longrightarrow> q \<in> {(3, 2), (4, 2), (5, 2)} \<Longrightarrow>
      state (dot_at (board g1) q) = ''undamaged''"
    unfolding b1 get_dots_3_2 using ib by (subst dot_at_foldl) (auto simp: board_wf_create)
  have k1: "0 < length (ships_list g1)" "(3, 2) \<in> set (get_dots (ships_list g1 ! 0))"
    "1 < health (ships_list g1 ! 0)"
    by (simp_all add: S1 get_dots_3_2 len)
  have u1: "state (dot_at (board g1) (3, 2)) = ''undamaged''" using st1 ib by simp
  have sh1: "shot ord 3 2 g1 =
      (Inr True, g1\<lparr>board := set_state ''damaged'' (board g1) (3, 2),
                    ships_list := [?s'\<lparr>health := 2\<rparr>]\<rparr>)"
    using hit_general [OF gi1 k1(1,2) u1 k1(3)] by (simp add: S1 len)
  show "fst (shot ord 3 2 g1) = Inr True" by (simp add: sh1)
  have S2: "ships_list g2 = [?s'\<lparr>health := 2\<rparr>]" by (simp add: g2_def sh1)
  have b2: "board g2 = set_state ''damaged'' (board g1) (3, 2)" by (simp add: g2_def sh1)
  show "map health (ships_list (shoot_all ord [(3, 2)] g1)) = [2]" unfolding sa by (simp add: S2)
  have k2: "0 < length (ships_list g2)" "(4, 2) \<in> set (get_dots (ships_list g2 ! 0))"
    "1 < health (ships_list g2 ! 0)"
    by (simp_all add: S2 get_dots_3_2)
  have u2: "state (dot_at (board g2) (4, 2)) = ''undamaged''"
    unfolding b2 using wf1 ib st1 by (simp add: dot_at_set_state)
  have u2': "state (dot_at (board g2) (5, 2)) = ''undamaged''"
    unfolding b2 using wf1 ib st1 by (simp add: dot_at_set_state)
  have sh2: "shot ord 4 2 g2 =
      (Inr True, g2\<lparr>board := set_state ''damaged'' (board g2) (4, 2),
                    ships_list := [?s'\<lparr>health := 1\<rparr>]\<rparr>)"
    using hit_general [OF gi2 k2(1,2) u2 k2(3)] by (simp add: S2)
  show "fst (shot ord 4 2 (shoot_all ord [(3, 2)] g1)) = Inr True" unfolding sa by (simp add: sh2)
  have S3: "ships_list g3 = [?s'\<lparr>health := 1\<rparr>]" by (simp add: g3_def sh2)
  have b3: "board g3 = set_state ''damaged'' (board g2) (4, 2)" by (simp add: g3_def sh2)
  show "map health (ships_list (shoot_all ord [(3, 2), (4, 2)] g1)) = [1]" unfolding sa by (simp add: S3)
  have k3: "0 < length (ships_list g3)" "(5, 2) \<in> set (get_dots (ships_list g3 ! 0))"
    "health (ships_list g3 ! 0) = 1"
    by (simp_all add: S3 get_dots_3_2)
  have u3: "state (dot_at (board g3) (5, 2)) = ''undamaged''"
    unfolding b3 using wf2 ib u2' by (simp add: dot_at_set_state)
  note sk = sink_general [OF gi3 k3(1,2) u3 k3(3)]
  show "fst (shot ord 5 2 (shoot_all ord [(3, 2), (4, 2)] g1)) = Inr True"
    unfolding sa by (simp add: sk(1))
  show "ships_list (shoot_all ord [(3, 2), (4, 2), (5, 2)] g1) = []"
    unfolding sa g4_def by (simp add: sk(1) S3)
  have C: "contour ord (ships_list g3 ! 0) = contour ord ?s" by (simp add: S3)
  show "\<forall>p. in_bounds p \<and> p \<notin> {(3, 2), (4, 2), (5, 2)} \<and>
             (\<exists>q \<in> {(3, 2), (4, 2), (5, 2)}. adjacent8 p q) \<longrightarrow>
             state (dot_at (board (shoot_all ord [(3, 2), (4, 2), (5, 2)] g1)) p) = ''missed''"
  proof (intro allI impI)
    fix p assume p: "in_bounds p \<and> p \<notin> {(3, 2), (4, 2), (5, 2)} \<and>
             (\<exists>q \<in> {(3, 2), (4, 2), (5, 2)}. adjacent8 p q)"
    then obtain q where q: "q \<in> set (get_dots ?s)" "adjacent8 p q"
      unfolding get_dots_3_2 by auto
    then have "p \<in> set (block q)" by (simp add: adjacent8_def in_block)
    moreover have "p \<notin> set (get_dots ?s)" using p unfolding get_dots_3_2 by simp
    ultimately have "p \<in> set (contour ord ?s)"
      unfolding set_contour [OF o] using p q(1) by blast
    then show "state (dot_at (board (shoot_all ord [(3, 2), (4, 2), (5, 2)] g1)) p) = ''missed''"
      using sk(2) unfolding C sa g4_def by blast
  qed
qed

section \<open>Properties of the engine\<close>

subsection \<open>Placement keeps ships apart\<close>

text \<open>
  C1. On every board reached from a fresh one by successful \<open>add_ship\<close> calls, with ships
  made by the constructor, the fleet is the list of the ships placed and any two of them
  are apart: the dots of one meet neither the dots nor the contour of the other. A call
  of \<open>add_ship\<close> raises (the placement error, board untouched) whenever a dot of the new
  ship is a dot or a contour cell of a ship of the fleet, and it succeeds only when none
  is.
\<close>

theorem adjacency_after_placing:
  assumes "set_order ord" and "placed ord n g"
  shows "length (ships_list g) = n \<and>
    (\<forall>i < length (ships_list g). \<forall>j < length (ships_list g). i \<noteq> j \<longrightarrow>
        set (get_dots (ships_list g ! i)) \<inter> set (get_dots (ships_list g ! j)) = {} \<and>
        set (get_dots (ships_list g ! i)) \<inter> set (contour ord (ships_list g ! j)) = {}) \<and>
    (\<forall>s. (\<exists>p \<in> set (get_dots s). \<exists>t \<in> set (ships_list g).
              p \<in> set (get_dots t) \<or> p \<in> set (contour ord t)) \<longrightarrow>
         (\<exists>e. add_ship ord s g = (Inl e, g) \<and> PlacementError e)) \<and>
    (\<forall>s. fst (add_ship ord s g) = Inr () \<longrightarrow>
         \<not> (\<exists>p \<in> set (get_dots s). \<exists>t \<in> set (ships_list g).
              p \<in> set (get_dots t) \<or> p \<in> set (contour ord t)))"
proof (intro conjI)
  show "length (ships_list g) = n" using placed_count [OF assms(2)] by simp
  have "adjacency ord (ships_list g)"
    using reachable_grid_inv [OF assms(1) placed_reachable [OF assms(2)]]
    by (simp add: grid_inv_def)
  then show "\<forall>i < length (ships_list g). \<forall>j < length (ships_list g). i \<noteq> j \<longrightarrow>
        set (get_dots (ships_list g ! i)) \<inter> set (get_dots (ships_list g ! j)) = {} \<and>
        set (get_dots (ships_list g ! i)) \<inter> set (contour ord (ships_list g ! j)) = {}"
    unfolding adjacency_def apart_def by blast
  show "\<forall>s. (\<exists>p \<in> set (get_dots s). \<exists>t \<in> set (ships_list g).
              p \<in> set (get_dots t) \<or> p \<in> set (contour ord t)) \<longrightarrow>
         (\<exists>e. add_ship ord s g = (Inl e, g) \<and> PlacementError e)"
    by (simp add: add_ship_cases)
  show "\<forall>s. fst (add_ship ord s g) = Inr () \<longrightarrow>
         \<not> (\<exists>p \<in> set (get_dots s). \<exists>t \<in> set (ships_list g).
              p \<in> set (get_dots t) \<or> p \<in> set (contour ord t))"
    by (simp add: add_ship_cases)
qed

theorem adjacency_after_placing_witness:
  "set_order insertion_order \<and>
   placed insertion_order 2
     (place_all insertion_order [built_ship 1 ''horizontal'' 2 2, built_ship 2 ''vertical'' 4 4] Board) \<and>
   (let g = place_all insertion_order [built_ship 1 ''horizontal'' 2 2, built_ship 2 ''vertical'' 4 4] Board
    in length (ships_list g) = 2 \<and>
       set (get_dots (ships_list g ! 0)) \<inter> set (get_dots (ships_list g ! 1)) = {} \<and>
       set (get_dots (ships_list g ! 0)) \<inter> set (contour insertion_order (ships_list g ! 1)) = {} \<and>
       (\<exists>e. add_ship insertion_order (built_ship 1 ''horizontal'' 1 1) g = (Inl e, g) \<and>
            PlacementError e) \<and>
       fst (add_ship insertion_order (built_ship 1 ''horizontal'' 6 1) g) = Inr () \<and>
       \<not> (\<exists>p \<in> set (get_dots (built_ship 1 ''horizontal'' 6 1)). \<exists>t \<in> set (ships_list g).
              p \<in> set (get_dots t) \<or> p \<in> set (contour insertion_order t)))"
proof -
  let ?ss = "[built_ship 1 ''horizontal'' 2 2, built_ship 2 ''vertical'' 4 4]"
  let ?g = "place_all insertion_order ?ss Board"
  have ok: "list_all (\<lambda>s. ship_ok s \<and> dots_list s = []) ?ss" by code_simp
  have all: "all_placed insertion_order ?ss Board" by code_simp
  have "placed insertion_order (0 + length ?ss) ?g"
    using placed_Board ok all by (rule placed_place_all)
  then have pl: "placed insertion_order 2 ?g" by (simp add: numeral_2_eq_2)
  have near: "\<exists>p \<in> set (get_dots (built_ship 1 ''horizontal'' 1 1)). \<exists>t \<in> set (ships_list ?g).
      p \<in> set (get_dots t) \<or> p \<in> set (contour insertion_order t)"
    by code_simp
  note th = adjacency_after_placing [OF set_order_insertion_order pl]
  from th have len: "length (ships_list ?g) = 2" by blast
  from th len have "set (get_dots (ships_list ?g ! 0)) \<inter> set (get_dots (ships_list ?g ! 1)) = {} \<and>
       set (get_dots (ships_list ?g ! 0)) \<inter> set (contour insertion_order (ships_list ?g ! 1)) = {}"
    by simp
  moreover from th near
  have "\<exists>e. add_ship insertion_order (built_ship 1 ''horizontal'' 1 1) ?g = (Inl e, ?g) \<and> PlacementError e"
    by blast
  moreover have far: "fst (add_ship insertion_order (built_ship 1 ''horizontal'' 6 1) ?g) = Inr ()"
    by code_simp
  moreover from th far
  have "\<not> (\<exists>p \<in> set (get_dots (built_ship 1 ''horizontal'' 6 1)). \<exists>t \<in> set (ships_list ?g).
              p \<in> set (get_dots t) \<or> p \<in> set (contour insertion_order t))"
    by blast
  ultimately show ?thesis using set_order_insertion_order pl len by (simp add: Let_def)
qed

subsection \<open>Sinking a ship\<close>

text \<open>
  C2. On every board reached by \<open>add_ship\<close> and \<open>shot\<close>, when a shot hits an undamaged
  cell of a ship of the fleet whose health is 1 (so the hit brings it to zero): the shot
  returns \<open>True\<close>, every cell of that ship's contour is missed afterwards, and the ship is
  deleted from the fleet, which otherwise stays as it was: every other ship is still in
  it with the same record (health included), the cells it occupies are unchanged, and
  the remaining lengths are unchanged. In particular, after placing a ship of length 3
  horizontally at (3, 2) on a fresh board, the shots at (3, 2), (4, 2) and (5, 2) each
  return \<open>True\<close>, the health is 2 after the first and 1 after the second, the third
  empties the fleet, and every cell on the board that is 8-adjacent to one of the three
  cells and is not one of them is missed.
\<close>

theorem sinking:
  assumes "set_order ord" and "reachable ord g" and "k < length (ships_list g)"
    and "(c, r) \<in> set (get_dots (ships_list g ! k))"
    and "state (dot_at (board g) (c, r)) = ''undamaged''"
    and "health (ships_list g ! k) = 1"
  shows "fst (shot ord c r g) = Inr True \<and>
    (\<forall>p \<in> set (contour ord (ships_list g ! k)).
        state (dot_at (board (snd (shot ord c r g))) p) = ''missed'') \<and>
    ships_list (snd (shot ord c r g)) = take k (ships_list g) @ drop (Suc k) (ships_list g) \<and>
    ships_list g ! k \<notin> set (ships_list (snd (shot ord c r g))) \<and>
    (\<forall>j < length (ships_list g). j \<noteq> k \<longrightarrow>
        ships_list g ! j \<in> set (ships_list (snd (shot ord c r g))) \<and>
        (\<forall>p \<in> set (get_dots (ships_list g ! j)).
           dot_at (board (snd (shot ord c r g))) p = dot_at (board g) p)) \<and>
    ship_length_list (snd (shot ord c r g)) = ship_length_list g \<and>
    Ship 3 ''horizontal'' \<lparr>column = 3, row = 2, state = ''hidden''\<rparr> None =
      Inr (built_ship 3 ''horizontal'' 3 2) \<and>
    fst (add_ship ord (built_ship 3 ''horizontal'' 3 2) Board) = Inr () \<and>
    get_dots (built_ship 3 ''horizontal'' 3 2) = [(3, 2), (4, 2), (5, 2)] \<and>
    fst (shot ord 3 2 (snd (add_ship ord (built_ship 3 ''horizontal'' 3 2) Board))) = Inr True \<and>
    map health (ships_list (shoot_all ord [(3, 2)]
       (snd (add_ship ord (built_ship 3 ''horizontal'' 3 2) Board)))) = [2] \<and>
    fst (shot ord 4 2 (shoot_all ord [(3, 2)]
       (snd (add_ship ord (built_ship 3 ''horizontal'' 3 2) Board)))) = Inr True \<and>
    map health (ships_list (shoot_all ord [(3, 2), (4, 2)]
       (snd (add_ship ord (built_ship 3 ''horizontal'' 3 2) Board)))) = [1] \<and>
    fst (shot ord 5 2 (shoot_all ord [(3, 2), (4, 2)]
       (snd (add_ship ord (built_ship 3 ''horizontal'' 3 2) Board)))) = Inr True \<and>
    ships_list (shoot_all ord [(3, 2), (4, 2), (5, 2)]
       (snd (add_ship ord (built_ship 3 ''horizontal'' 3 2) Board))) = [] \<and>
    (\<forall>p. in_bounds p \<and> p \<notin> {(3, 2), (4, 2), (5, 2)} \<and>
         (\<exists>q \<in> {(3, 2), (4, 2), (5, 2)}. adjacent8 p q) \<longrightarrow>
         state (dot_at (board (shoot_all ord [(3, 2), (4, 2), (5, 2)]
            (snd (add_ship ord (built_ship 3 ''horizontal'' 3 2) Board)))) p) = ''missed'')"
proof -
  let ?S = "ships_list g"
  have gi: "grid_inv ord g" by (rule reachable_grid_inv [OF assms(1,2)])
  have adj: "adjacency ord ?S" using gi by (simp add: grid_inv_def)
  note sk = sink_general [OF gi assms(3,4,5,6)]
  have 1: "fst (shot ord c r g) = Inr True" by (simp add: sk(1))
  have 3: "ships_list (snd (shot ord c r g)) = take k ?S @ drop (Suc k) ?S"
    by (simp add: sk(1))
  have 4: "?S ! k \<notin> set (ships_list (snd (shot ord c r g)))"
  proof
    assume "?S ! k \<in> set (ships_list (snd (shot ord c r g)))"
    then obtain i where i: "i < length (take k ?S @ drop (Suc k) ?S)"
      "(take k ?S @ drop (Suc k) ?S) ! i = ?S ! k"
      unfolding 3 in_set_conv_nth by blast
    from nth_del_origin [OF i(1) assms(3)] obtain j where
      j: "j < length ?S" "j \<noteq> k" "(take k ?S @ drop (Suc k) ?S) ! i = ?S ! j" by blast
    then have "(c, r) \<in> set (get_dots (?S ! j))" using i(2) assms(4) by simp
    then have "j = k" using adjacency_uniq [OF adj assms(3) j(1) assms(4)] by blast
    with j(2) show False by simp
  qed
  have 6: "ship_length_list (snd (shot ord c r g)) = ship_length_list g"
    by (simp add: sk(1))
  note sc = scenario_3_2 [OF assms(1) refl]
  show ?thesis
    using 1 sk(2) 3 4 sk(3) 6 Ship_3_2 sc get_dots_3_2 by (intro conjI) blast+
qed

theorem sinking_witness:
  "set_order insertion_order \<and>
   reachable insertion_order
     (place_all insertion_order [built_ship 1 ''horizontal'' 2 2, built_ship 2 ''vertical'' 4 4] Board) \<and>
   (let g = place_all insertion_order
              [built_ship 1 ''horizontal'' 2 2, built_ship 2 ''vertical'' 4 4] Board
    in 0 < length (ships_list g) \<and> (2, 2) \<in> set (get_dots (ships_list g ! 0)) \<and>
       state (dot_at (board g) (2, 2)) = ''undamaged'' \<and> health (ships_list g ! 0) = 1 \<and>
       fst (shot insertion_order 2 2 g) = Inr True \<and>
       ships_list (snd (shot insertion_order 2 2 g)) = drop 1 (ships_list g) \<and>
       (\<forall>p \<in> set (contour insertion_order (ships_list g ! 0)).
          state (dot_at (board (snd (shot insertion_order 2 2 g))) p) = ''missed'') \<and>
       contour insertion_order (ships_list g ! 0) =
         [(1, 1), (1, 2), (1, 3), (2, 1), (2, 3), (3, 1), (3, 2), (3, 3)])"
proof -
  let ?ss = "[built_ship 1 ''horizontal'' 2 2, built_ship 2 ''vertical'' 4 4]"
  let ?g = "place_all insertion_order ?ss Board"
  have ok: "list_all (\<lambda>s. ship_ok s \<and> dots_list s = []) ?ss" by code_simp
  have all: "all_placed insertion_order ?ss Board" by code_simp
  have "placed insertion_order (0 + length ?ss) ?g"
    using placed_Board ok all by (rule placed_place_all)
  then have re: "reachable insertion_order ?g" by (rule placed_reachable)
  have k: "0 < length (ships_list ?g)" by code_simp
  have p: "(2, 2) \<in> set (get_dots (ships_list ?g ! 0))" by code_simp
  have u: "state (dot_at (board ?g) (2, 2)) = ''undamaged''" by code_simp
  have h: "health (ships_list ?g ! 0) = 1" by code_simp
  have c: "contour insertion_order (ships_list ?g ! 0) =
         [(1, 1), (1, 2), (1, 3), (2, 1), (2, 3), (3, 1), (3, 2), (3, 3)]" by code_simp
  note th = sinking [OF set_order_insertion_order re k p u h]
  from th have 1: "fst (shot insertion_order 2 2 ?g) = Inr True" by blast
  from th have 2: "ships_list (snd (shot insertion_order 2 2 ?g)) = drop 1 (ships_list ?g)"
    by simp
  from th have 3: "\<forall>p \<in> set (contour insertion_order (ships_list ?g ! 0)).
          state (dot_at (board (snd (shot insertion_order 2 2 ?g))) p) = ''missed''"
    by blast
  from set_order_insertion_order re k p u h c 1 2 3 show ?thesis
    unfolding Let_def by (intro conjI)
qed

subsection \<open>Repeated shots\<close>

text \<open>
  C3. A shot at a cell on the board that is damaged or missed raises the repeat-shot
  error and leaves the whole board object unchanged. A shot at a hidden cell returns
  \<open>False\<close>. A shot at an undamaged cell never raises the repeat-shot error: it returns
  \<open>True\<close> or raises the \<open>GameplayException\<close> of \<open>reduce_health\<close>, and on boards whose
  ships all had health equal to their length at the call that placed them
  (\<open>reachable_full\<close>) it returns \<open>True\<close>. That leaves out a ship constructed with a smaller
  \<open>health\<close> and a sunk ship object that is placed again: its health is still 0, and the
  shot at its undamaged cell raises the \<open>GameplayException\<close>. The first shot at a
  coordinate can still raise the repeat-shot error: in the last example the cell (2, 2)
  was marked missed as contour of a sunk ship and has never been shot at.
\<close>

theorem shot_outcomes:
  "in_bounds (c, r) \<longrightarrow>
     (state (dot_at (board g) (c, r)) = ''damaged'' \<or>
      state (dot_at (board g) (c, r)) = ''missed'' \<longrightarrow>
        shot ord c r g = (Inl (IncorrectParametersException AlreadyShot), g) \<and>
        RepeatShotError (IncorrectParametersException AlreadyShot)) \<and>
     (state (dot_at (board g) (c, r)) = ''hidden'' \<longrightarrow> fst (shot ord c r g) = Inr False) \<and>
     (state (dot_at (board g) (c, r)) = ''undamaged'' \<longrightarrow>
        (fst (shot ord c r g) = Inr True \<or>
         fst (shot ord c r g) = Inl (GameplayException HealthNegative)) \<and>
        (\<forall>e. fst (shot ord c r g) = Inl e \<longrightarrow> \<not> RepeatShotError e)) \<and>
     (state (dot_at (board g) (c, r)) = ''undamaged'' \<and> set_order ord \<and> reachable_full ord g \<longrightarrow>
        fst (shot ord c r g) = Inr True)"
proof (intro impI conjI allI)
  assume inb: "in_bounds (c, r)"
  {
    assume "state (dot_at (board g) (c, r)) = ''damaged'' \<or>
      state (dot_at (board g) (c, r)) = ''missed''"
    then have "state (dot_at (board g) (c, r)) \<noteq> ''undamaged''"
      "state (dot_at (board g) (c, r)) \<noteq> ''hidden''" by auto
    then show "shot ord c r g = (Inl (IncorrectParametersException AlreadyShot), g)"
      using inb by (simp add: shot_repeat)
    show "RepeatShotError (IncorrectParametersException AlreadyShot)" by simp
  }
  {
    assume "state (dot_at (board g) (c, r)) = ''hidden''"
    then show "fst (shot ord c r g) = Inr False" using inb by (simp add: shot_hidden)
  }
  {
    assume u: "state (dot_at (board g) (c, r)) = ''undamaged''"
    show "fst (shot ord c r g) = Inr True \<or>
         fst (shot ord c r g) = Inl (GameplayException HealthNegative)"
      by (rule shot_undamaged_result [OF inb u])
    fix e assume "fst (shot ord c r g) = Inl e"
    then show "\<not> RepeatShotError e" using shot_undamaged_result [OF inb u, of ord] by auto
  }
  {
    assume "state (dot_at (board g) (c, r)) = ''undamaged'' \<and> set_order ord \<and>
      reachable_full ord g"
    then show "fst (shot ord c r g) = Inr True" using shot_undamaged_full inb by blast
  }
qed

theorem shot_outcomes_witness:
  "in_bounds (4, 4) \<and> set_order insertion_order \<and>
   reachable_full insertion_order
     (snd (add_ship insertion_order (built_ship 2 ''vertical'' 4 4) Board)) \<and>
   state (dot_at (board (snd (add_ship insertion_order (built_ship 2 ''vertical'' 4 4) Board)))
      (4, 4)) = ''undamaged'' \<and>
   fst (shot insertion_order 4 4
      (snd (add_ship insertion_order (built_ship 2 ''vertical'' 4 4) Board))) = Inr True \<and>
   state (dot_at (board Board) (4, 4)) = ''hidden'' \<and>
   fst (shot insertion_order 4 4 Board) = Inr False \<and>
   state (dot_at (board (snd (shot insertion_order 4 4 Board))) (4, 4)) = ''missed'' \<and>
   shot insertion_order 4 4 (snd (shot insertion_order 4 4 Board)) =
     (Inl (IncorrectParametersException AlreadyShot), snd (shot insertion_order 4 4 Board))"
proof -
  let ?g1 = "snd (add_ship insertion_order (built_ship 2 ''vertical'' 4 4) Board)"
  let ?g2 = "snd (shot insertion_order 4 4 Board)"
  have b: "in_bounds (4, 4)" by (simp add: in_bounds_def)
  have s: "Ship 2 ''vertical'' \<lparr>column = 4, row = 4, state = ''hidden''\<rparr> None =
      Inr (built_ship 2 ''vertical'' 4 4)" by code_simp
  have re: "reachable_full insertion_order ?g1"
    by (rule reachable_full_add_ship [OF reachable_full_Board Ship_ok [OF s] Ship_full [OF s]])
  have u: "state (dot_at (board ?g1) (4, 4)) = ''undamaged''" by code_simp
  have h: "state (dot_at (board Board) (4, 4)) = ''hidden''" by code_simp
  have m: "state (dot_at (board ?g2) (4, 4)) = ''missed''" by code_simp
  have 1: "fst (shot insertion_order 4 4 ?g1) = Inr True"
    using shot_outcomes [of 4 4 ?g1 insertion_order] b u re set_order_insertion_order by blast
  have 2: "fst (shot insertion_order 4 4 Board) = Inr False"
    using shot_outcomes [of 4 4 Board insertion_order] b h by blast
  have 3: "shot insertion_order 4 4 ?g2 = (Inl (IncorrectParametersException AlreadyShot), ?g2)"
    using shot_outcomes [of 4 4 ?g2 insertion_order] b m by blast
  from b set_order_insertion_order re u h m 1 2 3 show ?thesis by simp
qed

theorem shot_outcomes_counterexample:
  "fst (add_ship insertion_order (built_ship 1 ''horizontal'' 1 1) Board) = Inr () \<and>
   fst (shot insertion_order 1 1
      (snd (add_ship insertion_order (built_ship 1 ''horizontal'' 1 1) Board))) = Inr True \<and>
   fst (shot insertion_order 2 2
      (snd (shot insertion_order 1 1
         (snd (add_ship insertion_order (built_ship 1 ''horizontal'' 1 1) Board))))) =
     Inl (IncorrectParametersException AlreadyShot) \<and>
   RepeatShotError (IncorrectParametersException AlreadyShot)"
  by code_simp

subsection \<open>Failures leave the board unchanged\<close>

text \<open>
  C4. For a ship whose dots are all on the board (\<open>ship_ok\<close>, which the constructor
  guarantees), \<open>add_ship\<close> is atomic on failure: it either succeeds or raises a placement
  error, and whenever it raises, the whole board object (cells, fleet with every ship's
  health, remaining lengths) is as before the call. \<open>shot\<close> is atomic when it raises the
  bounds error or the repeat-shot error. This does not extend to the third exception of
  \<open>shot\<close>, the \<open>GameplayException\<close> of \<open>reduce_health\<close> on a ship without health: it is
  raised after the target cell was set to damaged, as the last example shows on a ship
  constructed with \<open>health = 0\<close>. Nor does it extend to a ship with a dot off the board,
  which only arises when the length or direction of a ship is reassigned after its
  construction: there the source fails on the board index after the first changes.
\<close>

theorem failure_atomic:
  "(ship_ok s \<longrightarrow>
      (fst (add_ship ord s g) = Inr () \<or>
       (\<exists>e. add_ship ord s g = (Inl e, g) \<and> PlacementError e)) \<and>
      (\<forall>e g'. add_ship ord s g = (Inl e, g') \<longrightarrow> PlacementError e \<and> g' = g)) \<and>
   (\<forall>e g'. shot ord c r g = (Inl e, g') \<and> (BoundsError e \<or> RepeatShotError e) \<longrightarrow> g' = g)"
proof (intro conjI allI impI)
  show "fst (add_ship ord s g) = Inr () \<or>
       (\<exists>e. add_ship ord s g = (Inl e, g) \<and> PlacementError e)"
    using add_ship_error [of ord s g] by blast
next
  fix e g' assume "add_ship ord s g = (Inl e, g')"
  then show "PlacementError e" "g' = g" by (auto simp: add_ship_cases split: if_splits)
next
  fix e g' assume a: "shot ord c r g = (Inl e, g') \<and> (BoundsError e \<or> RepeatShotError e)"
  then show "g' = g" using shot_error_cases [of ord c r g e g'] by auto
qed

theorem failure_atomic_witness:
  "ship_ok (built_ship 1 ''horizontal'' 1 1) \<and>
   add_ship insertion_order (built_ship 1 ''horizontal'' 1 1)
       (place_all insertion_order [built_ship 1 ''horizontal'' 2 2] Board) =
     (Inl (IncorrectParametersException NeedEmptyDot),
      place_all insertion_order [built_ship 1 ''horizontal'' 2 2] Board) \<and>
   shot insertion_order 7 1 Board = (Inl (BoardOutException ShootOutside), Board) \<and>
   shot insertion_order 1 1 (snd (shot insertion_order 1 1 Board)) =
     (Inl (IncorrectParametersException AlreadyShot), snd (shot insertion_order 1 1 Board))"
proof -
  let ?g1 = "place_all insertion_order [built_ship 1 ''horizontal'' 2 2] Board"
  let ?g2 = "snd (shot insertion_order 1 1 Board)"
  have a: "fst (add_ship insertion_order (built_ship 1 ''horizontal'' 1 1) ?g1) =
      Inl (IncorrectParametersException NeedEmptyDot)" by code_simp
  have b: "fst (shot insertion_order 7 1 Board) = Inl (BoardOutException ShootOutside)"
    by code_simp
  have c: "fst (shot insertion_order 1 1 ?g2) = Inl (IncorrectParametersException AlreadyShot)"
    by code_simp
  have ok: "ship_ok (built_ship 1 ''horizontal'' 1 1)" by code_simp
  have "snd (add_ship insertion_order (built_ship 1 ''horizontal'' 1 1) ?g1) = ?g1"
    using failure_atomic [where ord = insertion_order
        and s = "built_ship 1 ''horizontal'' 1 1" and g = "?g1"] a ok
    by (metis prod.collapse)
  moreover have "snd (shot insertion_order 7 1 Board) = Board"
    using failure_atomic [where ord = insertion_order and g = Board and c = 7 and r = 1] b
    by (metis prod.collapse BoundsError.simps(1))
  moreover have "snd (shot insertion_order 1 1 ?g2) = ?g2"
    using failure_atomic [where ord = insertion_order and g = "?g2" and c = 1 and r = 1] c
    by (metis prod.collapse RepeatShotError.simps(1))
  ultimately show ?thesis using ok a b c by (simp add: prod_eq_iff)
qed

theorem failure_atomic_counterexample:
  "Ship 1 ''horizontal'' \<lparr>column = 1, row = 1, state = ''hidden''\<rparr> (Some 0) = Inr feeble_ship \<and>
   fst (add_ship insertion_order feeble_ship Board) = Inr () \<and>
   fst (shot insertion_order 1 1 (snd (add_ship insertion_order feeble_ship Board))) =
     Inl (GameplayException HealthNegative) \<and>
   DomainError (GameplayException HealthNegative) \<and>
   state (dot_at (board (snd (add_ship insertion_order feeble_ship Board))) (1, 1)) =
     ''undamaged'' \<and>
   state (dot_at (board (snd (shot insertion_order 1 1
            (snd (add_ship insertion_order feeble_ship Board))))) (1, 1)) = ''damaged'' \<and>
   snd (shot insertion_order 1 1 (snd (add_ship insertion_order feeble_ship Board))) \<noteq>
     snd (add_ship insertion_order feeble_ship Board)"
proof -
  let ?g1 = "snd (add_ship insertion_order feeble_ship Board)"
  have a: "Ship 1 ''horizontal'' \<lparr>column = 1, row = 1, state = ''hidden''\<rparr> (Some 0) =
      Inr feeble_ship" by code_simp
  have b: "fst (add_ship insertion_order feeble_ship Board) = Inr ()" by code_simp
  have c: "fst (shot insertion_order 1 1 ?g1) = Inl (GameplayException HealthNegative)"
    by code_simp
  have d: "state (dot_at (board ?g1) (1, 1)) = ''undamaged''" by code_simp
  have e: "state (dot_at (board (snd (shot insertion_order 1 1 ?g1))) (1, 1)) = ''damaged''"
    by code_simp
  from d e have "snd (shot insertion_order 1 1 ?g1) \<noteq> ?g1" by auto
  with a b c d e show ?thesis by simp
qed

subsection \<open>The contour\<close>

text \<open>
  C5. The contour of a ship is the set of the cells 8-adjacent to one of its dots, without
  its own dots and without the cells off the board, in whatever order the set is
  enumerated. It is computed from the ship alone (no board is consulted), and two ships
  of the same length, direction and anchor coordinates have the same contour.
\<close>

theorem contour_spec:
  assumes "set_order ord"
  shows "set (contour ord s) =
           {p. (\<exists>q \<in> set (get_dots s). adjacent8 p q) \<and> p \<notin> set (get_dots s) \<and> in_bounds p} \<and>
         (ship_length t = ship_length s \<and> direction t = direction s \<and>
          column (start_point t) = column (start_point s) \<and>
          row (start_point t) = row (start_point s) \<longrightarrow> contour ord t = contour ord s)"
proof
  show "set (contour ord s) =
           {p. (\<exists>q \<in> set (get_dots s). adjacent8 p q) \<and> p \<notin> set (get_dots s) \<and> in_bounds p}"
  proof -
    have "(\<exists>q \<in> set (get_dots s). adjacent8 p q) \<longleftrightarrow> (\<exists>q \<in> set (get_dots s). p \<in> set (block q))"
      if "p \<notin> set (get_dots s)" for p
    proof -
      have "adjacent8 p q \<longleftrightarrow> p \<in> set (block q)" if "q \<in> set (get_dots s)" for q
        using that \<open>p \<notin> set (get_dots s)\<close> unfolding adjacent8_def in_block by blast
      then show ?thesis by blast
    qed
    then show ?thesis unfolding set_contour [OF assms] by blast
  qed
next
  have "get_dots t = get_dots s"
    if "ship_length t = ship_length s \<and> direction t = direction s \<and>
          column (start_point t) = column (start_point s) \<and>
          row (start_point t) = row (start_point s)"
  proof -
    have "part_coord (direction t) (start_point t) = part_coord (direction s) (start_point s)"
      using that by (auto simp: part_coord_def fun_eq_iff)
    with that show ?thesis by (simp add: get_dots_def run_coords_def)
  qed
  then show "ship_length t = ship_length s \<and> direction t = direction s \<and>
          column (start_point t) = column (start_point s) \<and>
          row (start_point t) = row (start_point s) \<longrightarrow> contour ord t = contour ord s"
    by (auto intro: contour_cong)
qed

theorem contour_spec_witness:
  "set_order insertion_order \<and>
   set (contour insertion_order (built_ship 1 ''horizontal'' 1 1)) =
     {p. (\<exists>q \<in> set (get_dots (built_ship 1 ''horizontal'' 1 1)). adjacent8 p q) \<and>
         p \<notin> set (get_dots (built_ship 1 ''horizontal'' 1 1)) \<and> in_bounds p} \<and>
   contour insertion_order (built_ship 1 ''horizontal'' 1 1) = [(1, 2), (2, 1), (2, 2)] \<and>
   contour insertion_order feeble_ship = contour insertion_order (built_ship 1 ''horizontal'' 1 1)"
proof -
  have v: "contour insertion_order (built_ship 1 ''horizontal'' 1 1) = [(1, 2), (2, 1), (2, 2)]"
    by code_simp
  have e: "ship_length feeble_ship = ship_length (built_ship 1 ''horizontal'' 1 1) \<and>
      direction feeble_ship = direction (built_ship 1 ''horizontal'' 1 1) \<and>
      column (start_point feeble_ship) = column (start_point (built_ship 1 ''horizontal'' 1 1)) \<and>
      row (start_point feeble_ship) = row (start_point (built_ship 1 ''horizontal'' 1 1))"
    by (simp add: feeble_ship_def)
  from contour_spec [OF set_order_insertion_order,
      of "built_ship 1 ''horizontal'' 1 1" feeble_ship] e v set_order_insertion_order
  show ?thesis by blast
qed

subsection \<open>The remaining lengths\<close>

text \<open>
  C6. A fresh board has the remaining lengths 3, 2, 2, 1, 1, 1, 1. A successful
  \<open>add_ship\<close> takes one instance of the ship's length out of them and appends the ship
  to the fleet. When the ship's length is not among the remaining lengths the call raises
  a placement error and leaves the board as it was. So after 7 successful placements no
  length remains and every further call raises a placement error.
\<close>

theorem fleet_composition:
  "ship_length_list Board = [3, 2, 2, 1, 1, 1, 1] \<and>
   (\<forall>s g g'. add_ship ord s g = (Inr (), g') \<longrightarrow>
      mset (ship_length_list g) = add_mset (ship_length s) (mset (ship_length_list g')) \<and>
      ships_list g' = ships_list g @ [s\<lparr>dots_list := dots_list s @ get_dots s\<rparr>]) \<and>
   (\<forall>s g. ship_length s \<notin> set (ship_length_list g) \<longrightarrow>
      (\<exists>e. add_ship ord s g = (Inl e, g) \<and> PlacementError e)) \<and>
   (\<forall>g. placed ord 7 g \<longrightarrow>
      ship_length_list g = [] \<and> (\<forall>s. \<exists>e. add_ship ord s g = (Inl e, g) \<and> PlacementError e))"
proof (intro conjI allI impI)
  show "ship_length_list Board = [3, 2, 2, 1, 1, 1, 1]" by (simp add: Board_def)
next
  fix s :: ship and g g' :: grid
  assume a: "add_ship ord s g = (Inr (), g')"
  then have mem: "ship_length s \<in> set (ship_length_list g)"
    and g': "g' = g\<lparr>ship_length_list := remove1 (ship_length s) (ship_length_list g),
           ships_list := ships_list g @ [s\<lparr>dots_list := dots_list s @ get_dots s\<rparr>],
           board := foldl (set_state ''undamaged'') (board g) (get_dots s)\<rparr>"
    by (auto simp: add_ship_cases split: if_splits)
  show "mset (ship_length_list g) = add_mset (ship_length s) (mset (ship_length_list g'))"
    using mem unfolding g' by simp
  show "ships_list g' = ships_list g @ [s\<lparr>dots_list := dots_list s @ get_dots s\<rparr>]"
    unfolding g' by simp
next
  fix s :: ship and g :: grid
  assume "ship_length s \<notin> set (ship_length_list g)"
  then have "fst (add_ship ord s g) \<noteq> Inr ()" by (simp add: add_ship_cases)
  then show "\<exists>e. add_ship ord s g = (Inl e, g) \<and> PlacementError e" by (rule add_ship_error)
next
  fix g assume "placed ord 7 g"
  from placed_count [OF this]
  have "size (mset (ship_length_list g) + mset (map ship_length (ships_list g))) =
        size (mset [3, 2, 2, 1, 1, 1, 1 :: int])" and "length (ships_list g) = 7"
    by simp_all
  then show e: "ship_length_list g = []" by simp
  fix s :: ship
  have "fst (add_ship ord s g) \<noteq> Inr ()" using e by (simp add: add_ship_cases)
  then show "\<exists>e. add_ship ord s g = (Inl e, g) \<and> PlacementError e" by (rule add_ship_error)
qed

theorem fleet_composition_witness:
  "add_ship insertion_order (built_ship 3 ''horizontal'' 1 1) Board =
     (Inr (), place_all insertion_order [built_ship 3 ''horizontal'' 1 1] Board) \<and>
   mset (ship_length_list Board) =
     add_mset 3 (mset (ship_length_list (place_all insertion_order [built_ship 3 ''horizontal'' 1 1] Board))) \<and>
   placed insertion_order 7 (place_all insertion_order fleet7 Board) \<and>
   ship_length_list (place_all insertion_order fleet7 Board) = [] \<and>
   ship_length (built_ship 1 ''horizontal'' 1 6) \<notin>
     set (ship_length_list (place_all insertion_order fleet7 Board)) \<and>
   (\<exists>e. add_ship insertion_order (built_ship 1 ''horizontal'' 1 6) (place_all insertion_order fleet7 Board) =
          (Inl e, place_all insertion_order fleet7 Board) \<and> PlacementError e)"
proof -
  let ?g = "place_all insertion_order fleet7 Board"
  let ?g1 = "place_all insertion_order [built_ship 3 ''horizontal'' 1 1] Board"
  note th = fleet_composition [of insertion_order]
  have "fst (add_ship insertion_order (built_ship 3 ''horizontal'' 1 1) Board) = Inr ()" by code_simp
  then have first: "add_ship insertion_order (built_ship 3 ''horizontal'' 1 1) Board = (Inr (), ?g1)"
    by (simp add: prod_eq_iff)
  with th have m: "mset (ship_length_list Board) =
      add_mset (ship_length (built_ship 3 ''horizontal'' 1 1)) (mset (ship_length_list ?g1))"
    by blast
  have ok: "list_all (\<lambda>s. ship_ok s \<and> dots_list s = []) fleet7" by code_simp
  have all: "all_placed insertion_order fleet7 Board" by code_simp
  have "placed insertion_order (0 + length fleet7) ?g"
    using placed_Board ok all by (rule placed_place_all)
  then have pl: "placed insertion_order 7 ?g" by (simp add: fleet7_def eval_nat_numeral)
  from th pl have e: "ship_length_list ?g = []"
    and f: "\<exists>e. add_ship insertion_order (built_ship 1 ''horizontal'' 1 6) ?g = (Inl e, ?g) \<and>
               PlacementError e"
    by blast+
  have l3: "ship_length (built_ship 3 ''horizontal'' 1 1) = 3" by (simp add: built_ship_def)
  show ?thesis using first m pl e f unfolding l3 by simp
qed

subsection \<open>Ships must fit on the board\<close>

text \<open>
  C7. Given a length in 1..3 and one of the two directions, constructing a ship raises
  \<open>BoardOutException\<close> exactly when some coordinate of the derived run (the anchor and
  the following \<open>length - 1\<close> cells along the direction) is off the board. The check is
  part of the constructor, which takes no board: it builds a \<open>Dot\<close> for every cell of
  the run and re-raises the bounds failure.
\<close>

theorem Ship_bounds_error:
  assumes "1 \<le> l \<and> l \<le> 3" and "d \<in> set DIRECTION_CHOICES"
  shows "(\<exists>e. Ship l d v h = Inl e \<and> BoundsError e) \<longleftrightarrow>
         (\<exists>i. 0 \<le> i \<and> i < l \<and>
            \<not> in_bounds (if d = ''horizontal'' then (column v + i, row v)
                          else (column v, row v + i)))"
proof -
  define f where "f i = (if d = ''horizontal'' then (column v + i, row v)
                          else (column v, row v + i))" for i
  have mem: "\<And>p. p \<in> set (run_coords l d v) \<longleftrightarrow> (\<exists>i. 0 \<le> i \<and> i < l \<and> p = f i)"
    unfolding f_def by (rule in_run_coords_int [OF assms(2)])
  have run: "(\<exists>p \<in> set (run_coords l d v). \<not> in_bounds p) \<longleftrightarrow>
         (\<exists>i. 0 \<le> i \<and> i < l \<and> \<not> in_bounds (f i))"
    unfolding Bex_def mem by blast
  have "Ship l d v h =
     (if \<forall>p \<in> set (run_coords l d v). in_bounds p
      then Inr \<lparr>ship_length = l, direction = d, start_point = v,
                 health = (case h of None \<Rightarrow> l | Some x \<Rightarrow> x), dots_list = []\<rparr>
      else Inl (BoardOutException ShipOffBoard))"
    using assms by (simp add: Ship_def check_start_point_cases)
  then have "(\<exists>e. Ship l d v h = Inl e \<and> BoundsError e) \<longleftrightarrow>
        (\<exists>p \<in> set (run_coords l d v). \<not> in_bounds p)"
    by (cases "\<forall>p \<in> set (run_coords l d v). in_bounds p") simp_all
  with run show ?thesis unfolding f_def by simp
qed

theorem Ship_bounds_error_witness:
  "(1 \<le> (3::int) \<and> (3::int) \<le> 3) \<and> ''horizontal'' \<in> set DIRECTION_CHOICES \<and>
   (\<exists>e. Ship 3 ''horizontal'' \<lparr>column = 5, row = 2, state = ''hidden''\<rparr> None = Inl e \<and>
        BoundsError e) \<and>
   Ship 3 ''horizontal'' \<lparr>column = 4, row = 2, state = ''hidden''\<rparr> None =
     Inr \<lparr>ship_length = 3, direction = ''horizontal'',
          start_point = \<lparr>column = 4, row = 2, state = ''hidden''\<rparr>, health = 3,
          dots_list = []\<rparr>"
proof -
  have l: "1 \<le> (3::int) \<and> (3::int) \<le> 3" by simp
  have d: "''horizontal'' \<in> set DIRECTION_CHOICES" by (simp add: DIRECTION_CHOICES_def)
  have out: "\<exists>i. 0 \<le> i \<and> i < (3::int) \<and>
      \<not> in_bounds (if ''horizontal'' = ''horizontal''
                    then (column \<lparr>column = 5, row = 2, state = ''hidden''\<rparr> + i,
                          row \<lparr>column = 5, row = 2, state = ''hidden''\<rparr>)
                    else (column \<lparr>column = 5, row = 2, state = ''hidden''\<rparr>,
                          row \<lparr>column = 5, row = 2, state = ''hidden''\<rparr> + i))"
    by (rule exI [of _ 2]) (simp add: in_bounds_def)
  have a: "\<exists>e. Ship 3 ''horizontal'' \<lparr>column = 5, row = 2, state = ''hidden''\<rparr> None = Inl e \<and>
        BoundsError e"
    using Ship_bounds_error [OF l d, of "\<lparr>column = 5, row = 2, state = ''hidden''\<rparr>" None] out
    by blast
  have b: "Ship 3 ''horizontal'' \<lparr>column = 4, row = 2, state = ''hidden''\<rparr> None =
     Inr \<lparr>ship_length = 3, direction = ''horizontal'',
          start_point = \<lparr>column = 4, row = 2, state = ''hidden''\<rparr>, health = 3,
          dots_list = []\<rparr>"
    by code_simp
  from l d a b show ?thesis by blast
qed

subsection \<open>Dots must be on the board\<close>

text \<open>
  C8. For all integers \<open>c\<close>, \<open>r\<close> in 1..6, constructing a dot (default state) succeeds
  and the new dot is hidden; when the column or the row is outside that range, the
  construction raises \<open>BoardOutException\<close>, whatever the state argument.
\<close>

theorem Dot_bounds:
  "(1 \<le> c \<and> c \<le> 6 \<and> 1 \<le> r \<and> r \<le> 6 \<longrightarrow>
      Dot c r ''hidden'' = Inr \<lparr>column = c, row = r, state = ''hidden''\<rparr>) \<and>
   (\<not> (1 \<le> c \<and> c \<le> 6 \<and> 1 \<le> r \<and> r \<le> 6) \<longrightarrow>
      (\<exists>e. Dot c r s = Inl e \<and> BoundsError e))"
  by (auto simp: Dot_def STATE_CHOICES_def)

theorem Dot_bounds_witness:
  "Dot 3 2 ''hidden'' = Inr \<lparr>column = 3, row = 2, state = ''hidden''\<rparr> \<and>
   (\<exists>e. Dot 7 2 ''hidden'' = Inl e \<and> BoundsError e) \<and>
   (\<exists>e. Dot 3 0 ''hidden'' = Inl e \<and> BoundsError e)"
  using Dot_bounds [of 3 2 "''hidden''"] Dot_bounds [of 7 2 "''hidden''"]
    Dot_bounds [of 3 0 "''hidden''"]
  by simp

subsection \<open>Cell states move one way\<close>

text \<open>
  C9. One call \<open>shot(c, r)\<close> moves the state of a cell in one of these ways only: the cell
  keeps its state; it is the target and goes from undamaged to damaged or from hidden to
  missed; or it lies on the contour of the ship that this very shot sinks and becomes
  missed. On a board whose ships all had health equal to their length when they were
  placed, an undamaged cell is never on such a contour: it stays undamaged or is the target
  and becomes damaged. Hence across any sequence of \<open>shot\<close> calls a cell stays, goes from
  undamaged to damaged, or becomes missed, and no shot takes a cell from damaged or missed
  back to hidden or undamaged. \<open>add_ship\<close> sets the cells of the placed ship to undamaged
  whatever their state was and changes no other cell; it does not look at cell states, so
  placing a ship on a cell that is already missed or damaged returns that cell to
  undamaged, as in the last example. The coordinates of a cell never change: on every
  board reached by \<open>add_ship\<close> and \<open>shot\<close> the dot at address (column, row) carries that
  column and row.
\<close>

theorem cell_transitions:
  assumes "set_order ord" and "reachable ord g" and "in_bounds p"
  shows "shot_move ord c r g p (state (dot_at (board g) p))
      (state (dot_at (board (snd (shot ord c r g))) p)) \<and>
    (reachable_full ord g \<and> state (dot_at (board g) p) = ''undamaged'' \<longrightarrow>
       state (dot_at (board (snd (shot ord c r g))) p) = ''undamaged'' \<or>
       (p = (c, r) \<and> state (dot_at (board (snd (shot ord c r g))) p) = ''damaged'')) \<and>
    advances (state (dot_at (board g) p)) (state (dot_at (board (shoot_all ord ps g)) p)) \<and>
    (state (dot_at (board g) p) = ''damaged'' \<or> state (dot_at (board g) p) = ''missed'' \<longrightarrow>
       state (dot_at (board (shoot_all ord ps g)) p) = ''damaged'' \<or>
       state (dot_at (board (shoot_all ord ps g)) p) = ''missed'') \<and>
    (\<forall>s. ship_ok s \<longrightarrow>
       dot_at (board (snd (add_ship ord s g))) p =
         (if fst (add_ship ord s g) = Inr () \<and> p \<in> set (get_dots s)
          then (dot_at (board g) p)\<lparr>state := ''undamaged''\<rparr> else dot_at (board g) p)) \<and>
    column (dot_at (board g) p) = fst p \<and> row (dot_at (board g) p) = snd p"
proof -
  have gi: "grid_inv ord g" by (rule reachable_grid_inv [OF assms(1,2)])
  then have wf: "board_wf (board g)" and co: "coords_ok (board g)"
    by (simp_all add: grid_inv_def)
  have one: "shot_move ord c r g p (state (dot_at (board g) p))
      (state (dot_at (board (snd (shot ord c r g))) p))"
    by (rule shot_cell [OF gi assms(3)])
  have full: "reachable_full ord g \<and> state (dot_at (board g) p) = ''undamaged'' \<longrightarrow>
       state (dot_at (board (snd (shot ord c r g))) p) = ''undamaged'' \<or>
       (p = (c, r) \<and> state (dot_at (board (snd (shot ord c r g))) p) = ''damaged'')"
    using shot_cell_full [OF assms(1) _ assms(3)] by blast
  have adv: "advances (state (dot_at (board g) p)) (state (dot_at (board (shoot_all ord ps g)) p))"
    using board_step_shoot_all [OF wf, of ord ps] assms(3) unfolding board_step_def by blast
  then have stay: "state (dot_at (board g) p) = ''damaged'' \<or>
       state (dot_at (board g) p) = ''missed'' \<longrightarrow>
       state (dot_at (board (shoot_all ord ps g)) p) = ''damaged'' \<or>
       state (dot_at (board (shoot_all ord ps g)) p) = ''missed''"
    by (auto simp: advances_def)
  have place: "\<forall>s. ship_ok s \<longrightarrow>
       dot_at (board (snd (add_ship ord s g))) p =
         (if fst (add_ship ord s g) = Inr () \<and> p \<in> set (get_dots s)
          then (dot_at (board g) p)\<lparr>state := ''undamaged''\<rparr> else dot_at (board g) p)"
    using add_ship_board [OF wf _ assms(3)] by blast
  have xy: "column (dot_at (board g) p) = fst p" "row (dot_at (board g) p) = snd p"
    using co assms(3) unfolding coords_ok_def by blast+
  from one full adv stay place xy show ?thesis by (intro conjI)
qed

theorem cell_transitions_witness:
  "set_order insertion_order \<and>
   reachable insertion_order
     (snd (add_ship insertion_order (built_ship 1 ''horizontal'' 1 1) Board)) \<and>
   reachable_full insertion_order
     (snd (add_ship insertion_order (built_ship 1 ''horizontal'' 1 1) Board)) \<and>
   in_bounds (1, 1) \<and> in_bounds (2, 2) \<and>
   sunk_by insertion_order 1 1
     (snd (add_ship insertion_order (built_ship 1 ''horizontal'' 1 1) Board)) 0 \<and>
   (2, 2) \<in> set (contour insertion_order (ships_list
     (snd (add_ship insertion_order (built_ship 1 ''horizontal'' 1 1) Board)) ! 0)) \<and>
   state (dot_at (board (snd (add_ship insertion_order (built_ship 1 ''horizontal'' 1 1) Board)))
     (1, 1)) = ''undamaged'' \<and>
   state (dot_at (board (shoot_all insertion_order [(1, 1)]
     (snd (add_ship insertion_order (built_ship 1 ''horizontal'' 1 1) Board)))) (1, 1)) =
     ''damaged'' \<and>
   state (dot_at (board (snd (add_ship insertion_order (built_ship 1 ''horizontal'' 1 1) Board)))
     (2, 2)) = ''hidden'' \<and>
   state (dot_at (board (shoot_all insertion_order [(1, 1)]
     (snd (add_ship insertion_order (built_ship 1 ''horizontal'' 1 1) Board)))) (2, 2)) =
     ''missed'' \<and>
   shot_move insertion_order 1 1
     (snd (add_ship insertion_order (built_ship 1 ''horizontal'' 1 1) Board)) (1, 1)
     ''undamaged'' ''damaged'' \<and>
   shot_move insertion_order 1 1
     (snd (add_ship insertion_order (built_ship 1 ''horizontal'' 1 1) Board)) (2, 2)
     ''hidden'' ''missed'' \<and>
   (state (dot_at (board (snd (shot insertion_order 2 2
      (snd (add_ship insertion_order (built_ship 1 ''horizontal'' 1 1) Board))))) (1, 1)) =
      ''undamaged'' \<or>
    (1 :: int, 1 :: int) = (2, 2) \<and>
    state (dot_at (board (snd (shot insertion_order 2 2
      (snd (add_ship insertion_order (built_ship 1 ''horizontal'' 1 1) Board))))) (1, 1)) =
      ''damaged'') \<and>
   advances ''undamaged'' ''damaged'' \<and> advances ''hidden'' ''missed'' \<and>
   column (dot_at (board (snd (add_ship insertion_order (built_ship 1 ''horizontal'' 1 1) Board)))
     (2, 2)) = 2 \<and>
   (state (dot_at (board (shoot_all insertion_order [(2, 2), (1, 1)]
      (snd (shot insertion_order 1 1
         (snd (add_ship insertion_order (built_ship 1 ''horizontal'' 1 1) Board)))))) (2, 2)) =
      ''damaged'' \<or>
    state (dot_at (board (shoot_all insertion_order [(2, 2), (1, 1)]
      (snd (shot insertion_order 1 1
         (snd (add_ship insertion_order (built_ship 1 ''horizontal'' 1 1) Board)))))) (2, 2)) =
      ''missed'') \<and>
   ship_ok (built_ship 2 ''vertical'' 4 4) \<and>
   dot_at (board (snd (add_ship insertion_order (built_ship 2 ''vertical'' 4 4)
      (snd (add_ship insertion_order (built_ship 1 ''horizontal'' 1 1) Board))))) (4, 4) =
     (dot_at (board (snd (add_ship insertion_order (built_ship 1 ''horizontal'' 1 1) Board)))
        (4, 4))\<lparr>state := ''undamaged''\<rparr>"
proof -
  let ?g1 = "snd (add_ship insertion_order (built_ship 1 ''horizontal'' 1 1) Board)"
  have s: "Ship 1 ''horizontal'' \<lparr>column = 1, row = 1, state = ''hidden''\<rparr> None =
      Inr (built_ship 1 ''horizontal'' 1 1)" by code_simp
  have re: "reachable insertion_order ?g1"
    by (rule reachable_add_ship [OF reachable_Board Ship_ok [OF s]])
  have rf: "reachable_full insertion_order ?g1"
    by (rule reachable_full_add_ship [OF reachable_full_Board Ship_ok [OF s] Ship_full [OF s]])
  have b: "in_bounds (1, 1)" "in_bounds (2, 2)" by (simp_all add: in_bounds_def)
  have k: "sunk_by insertion_order 1 1 ?g1 0"
    "(2, 2) \<in> set (contour insertion_order (ships_list ?g1 ! 0))" by code_simp+
  have v: "state (dot_at (board ?g1) (1, 1)) = ''undamaged''"
    "state (dot_at (board (shoot_all insertion_order [(1, 1)] ?g1)) (1, 1)) = ''damaged''"
    "state (dot_at (board ?g1) (2, 2)) = ''hidden''"
    "state (dot_at (board (shoot_all insertion_order [(1, 1)] ?g1)) (2, 2)) = ''missed''"
    by code_simp+
  have w: "state (dot_at (board (snd (shot insertion_order 1 1 ?g1))) (1, 1)) = ''damaged''"
    "state (dot_at (board (snd (shot insertion_order 1 1 ?g1))) (2, 2)) = ''missed''"
    by code_simp+
  note a = cell_transitions [OF set_order_insertion_order re b(1),
      where c = 1 and r = 1 and ps = "[(1, 1)]"]
  note c = cell_transitions [OF set_order_insertion_order re b(2),
      where c = 1 and r = 1 and ps = "[(1, 1)]"]
  note d = cell_transitions [OF set_order_insertion_order re b(1),
      where c = 2 and r = 2 and ps = "[]"]
  from a have "shot_move insertion_order 1 1 ?g1 (1, 1) (state (dot_at (board ?g1) (1, 1)))
      (state (dot_at (board (snd (shot insertion_order 1 1 ?g1))) (1, 1)))" by (rule conjunct1)
  then have 6: "shot_move insertion_order 1 1 ?g1 (1, 1) ''undamaged'' ''damaged''"
    unfolding v(1) w(1) .
  from c have "shot_move insertion_order 1 1 ?g1 (2, 2) (state (dot_at (board ?g1) (2, 2)))
      (state (dot_at (board (snd (shot insertion_order 1 1 ?g1))) (2, 2)))" by (rule conjunct1)
  then have 7: "shot_move insertion_order 1 1 ?g1 (2, 2) ''hidden'' ''missed''"
    unfolding v(3) w(2) .
  from d rf v(1) have 8: "state (dot_at (board (snd (shot insertion_order 2 2 ?g1))) (1, 1)) =
      ''undamaged'' \<or>
    (1 :: int, 1 :: int) = (2, 2) \<and>
    state (dot_at (board (snd (shot insertion_order 2 2 ?g1))) (1, 1)) = ''damaged''"
    by blast
  from a have "advances (state (dot_at (board ?g1) (1, 1)))
      (state (dot_at (board (shoot_all insertion_order [(1, 1)] ?g1)) (1, 1)))" by blast
  then have 1: "advances ''undamaged'' ''damaged''" unfolding v(1) v(2) .
  from c have "advances (state (dot_at (board ?g1) (2, 2)))
      (state (dot_at (board (shoot_all insertion_order [(1, 1)] ?g1)) (2, 2)))" by blast
  then have 2: "advances ''hidden'' ''missed''" unfolding v(3) v(4) .
  from c have 3: "column (dot_at (board ?g1) (2, 2)) = 2" by simp
  let ?g2 = "snd (shot insertion_order 1 1 ?g1)"
  have re2: "reachable insertion_order ?g2" using re by (rule reachable_shot)
  have m: "state (dot_at (board ?g2) (2, 2)) = ''missed''" by code_simp
  from cell_transitions [OF set_order_insertion_order re2 b(2),
      where c = 1 and r = 1 and ps = "[(2, 2), (1, 1)]"] m
  have 4: "state (dot_at (board (shoot_all insertion_order [(2, 2), (1, 1)] ?g2)) (2, 2)) =
      ''damaged'' \<or>
    state (dot_at (board (shoot_all insertion_order [(2, 2), (1, 1)] ?g2)) (2, 2)) = ''missed''"
    by blast
  have b4: "in_bounds (4, 4)" by (simp add: in_bounds_def)
  have s2: "ship_ok (built_ship 2 ''vertical'' 4 4)" by code_simp
  have ok: "fst (add_ship insertion_order (built_ship 2 ''vertical'' 4 4) ?g1) = Inr () \<and>
      (4, 4) \<in> set (get_dots (built_ship 2 ''vertical'' 4 4))" by code_simp
  from cell_transitions [OF set_order_insertion_order re b4,
      where c = 1 and r = 1 and ps = "[]"] s2
  have "dot_at (board (snd (add_ship insertion_order (built_ship 2 ''vertical'' 4 4) ?g1))) (4, 4) =
     (if fst (add_ship insertion_order (built_ship 2 ''vertical'' 4 4) ?g1) = Inr () \<and>
         (4, 4) \<in> set (get_dots (built_ship 2 ''vertical'' 4 4))
      then (dot_at (board ?g1) (4, 4))\<lparr>state := ''undamaged''\<rparr>
      else dot_at (board ?g1) (4, 4))"
    by blast
  then have 5: "dot_at (board (snd (add_ship insertion_order (built_ship 2 ''vertical'' 4 4) ?g1)))
      (4, 4) = (dot_at (board ?g1) (4, 4))\<lparr>state := ''undamaged''\<rparr>"
    using ok by (simp only: if_True simp_thms)
  from set_order_insertion_order re rf b k v 6 7 8 1 2 3 4 5 s2 show ?thesis by (intro conjI)
qed

theorem cell_transitions_counterexample:
  "fst (shot insertion_order 1 1 Board) = Inr False \<and>
   state (dot_at (board (snd (shot insertion_order 1 1 Board))) (1, 1)) = ''missed'' \<and>
   Ship 1 ''horizontal'' \<lparr>column = 1, row = 1, state = ''hidden''\<rparr> None =
     Inr (built_ship 1 ''horizontal'' 1 1) \<and>
   fst (add_ship insertion_order (built_ship 1 ''horizontal'' 1 1)
     (snd (shot insertion_order 1 1 Board))) = Inr () \<and>
   state (dot_at (board (snd (add_ship insertion_order (built_ship 1 ''horizontal'' 1 1)
     (snd (shot insertion_order 1 1 Board))))) (1, 1)) = ''undamaged''"
  by code_simp

subsection \<open>Health counts the undamaged cells\<close>

text \<open>
  C10. On every board reached from a fresh one by \<open>add_ship\<close> and \<open>shot\<close> calls in
  which every ship has health equal to its length at the call that places it
  (\<open>reachable_full\<close>): each undamaged cell on the board is a dot of exactly one ship of
  the fleet; every ship of the fleet has health at least 1, equal to the number of its
  dots that are still undamaged; a shot at an undamaged cell returns \<open>True\<close>; and no
  shot raises the \<open>GameplayException\<close> of \<open>reduce_health\<close> (nor any other domain
  error). The restriction is needed, and in two ways. The constructor stores any
  \<open>health\<close> it is given: the first part of the last example places a ship built with
  health 0. And a ship is a mutable object that \<open>add_ship\<close> accepts again once it has
  been sunk: in the second part a ship built without the \<open>health\<close> argument is placed,
  sunk by a shot at (1, 1) and placed again; it is then in the fleet with health 0 and an
  undamaged cell, and the next shot at (1, 1) raises the \<open>GameplayException\<close>.
\<close>

theorem fleet_integrity:
  assumes "set_order ord" and "reachable_full ord g"
  shows "(\<forall>p. in_bounds p \<and> state (dot_at (board g) p) = ''undamaged'' \<longrightarrow>
            (\<exists>!k. k < length (ships_list g) \<and> p \<in> set (get_dots (ships_list g ! k)))) \<and>
         (\<forall>s \<in> set (ships_list g).
            1 \<le> health s \<and> health s = int (undamaged_count (board g) s)) \<and>
         (\<forall>c r. in_bounds (c, r) \<and> state (dot_at (board g) (c, r)) = ''undamaged'' \<longrightarrow>
            fst (shot ord c r g) = Inr True) \<and>
         (\<forall>c r e. fst (shot ord c r g) = Inl e \<longrightarrow> \<not> DomainError e)"
proof (intro conjI allI impI ballI)
  have gi: "grid_inv ord g"
    by (rule reachable_grid_inv [OF assms(1) reachable_full_reachable [OF assms(2)]])
  have fi: "fleet_inv g" by (rule reachable_full_fleet_inv [OF assms])
  have adj: "adjacency ord (ships_list g)" using gi by (simp add: grid_inv_def)
  {
    fix p assume p: "in_bounds p \<and> state (dot_at (board g) p) = ''undamaged''"
    then obtain k where k: "k < length (ships_list g)" "p \<in> set (get_dots (ships_list g ! k))"
      using fleet_inv_owner [OF fi] by blast
    show "\<exists>!k. k < length (ships_list g) \<and> p \<in> set (get_dots (ships_list g ! k))"
    proof (rule ex1I [of _ k])
      show "k < length (ships_list g) \<and> p \<in> set (get_dots (ships_list g ! k))" using k by simp
    next
      fix j assume "j < length (ships_list g) \<and> p \<in> set (get_dots (ships_list g ! j))"
      then show "j = k" using adjacency_uniq [OF adj k(1) _ k(2)] by blast
    qed
  }
  {
    fix s assume "s \<in> set (ships_list g)"
    then obtain j where "j < length (ships_list g)" "s = ships_list g ! j"
      by (auto simp: in_set_conv_nth)
    then have "ship_sound (board g) s" using fleet_inv_sound [OF fi] by simp
    then show "1 \<le> health s" "health s = int (undamaged_count (board g) s)"
      by (simp_all add: ship_sound_def)
  }
  {
    fix c r assume "in_bounds (c, r) \<and> state (dot_at (board g) (c, r)) = ''undamaged''"
    then show "fst (shot ord c r g) = Inr True"
      using shot_undamaged_full [OF assms] by blast
  }
  {
    fix c r e assume e: "fst (shot ord c r g) = Inl e"
    then have sh: "shot ord c r g = (Inl e, snd (shot ord c r g))" by (simp add: prod_eq_iff)
    show "\<not> DomainError e"
    proof
      assume "DomainError e"
      with shot_error_cases [OF sh]
      have "in_bounds (c, r)" "state (dot_at (board g) (c, r)) = ''undamaged''" by auto
      then have "fst (shot ord c r g) = Inr True" by (rule shot_undamaged_full [OF assms])
      with e show False by simp
    qed
  }
qed

theorem fleet_integrity_witness:
  "set_order insertion_order \<and>
   reachable_full insertion_order
     (snd (shot insertion_order 4 4
        (snd (add_ship insertion_order (built_ship 2 ''vertical'' 4 4) Board)))) \<and>
   map health (ships_list (snd (shot insertion_order 4 4
        (snd (add_ship insertion_order (built_ship 2 ''vertical'' 4 4) Board))))) = [1] \<and>
   state (dot_at (board (snd (shot insertion_order 4 4
        (snd (add_ship insertion_order (built_ship 2 ''vertical'' 4 4) Board))))) (4, 5)) =
     ''undamaged'' \<and>
   fst (shot insertion_order 4 5 (snd (shot insertion_order 4 4
        (snd (add_ship insertion_order (built_ship 2 ''vertical'' 4 4) Board))))) = Inr True \<and>
   fst (shot insertion_order 4 4 (snd (shot insertion_order 4 4
        (snd (add_ship insertion_order (built_ship 2 ''vertical'' 4 4) Board))))) =
     Inl (IncorrectParametersException AlreadyShot) \<and>
   \<not> DomainError (IncorrectParametersException AlreadyShot)"
proof -
  let ?g1 = "snd (add_ship insertion_order (built_ship 2 ''vertical'' 4 4) Board)"
  let ?g2 = "snd (shot insertion_order 4 4 ?g1)"
  have s: "Ship 2 ''vertical'' \<lparr>column = 4, row = 4, state = ''hidden''\<rparr> None =
      Inr (built_ship 2 ''vertical'' 4 4)" by code_simp
  have "reachable_full insertion_order ?g1"
    by (rule reachable_full_add_ship [OF reachable_full_Board Ship_ok [OF s] Ship_full [OF s]])
  then have re: "reachable_full insertion_order ?g2" by (rule reachable_full_shot)
  have h: "map health (ships_list ?g2) = [1]" by code_simp
  have u: "in_bounds (4, 5) \<and> state (dot_at (board ?g2) (4, 5)) = ''undamaged''" by code_simp
  have e: "fst (shot insertion_order 4 4 ?g2) = Inl (IncorrectParametersException AlreadyShot)"
    by code_simp
  from fleet_integrity [OF set_order_insertion_order re] u
  have t: "fst (shot insertion_order 4 5 ?g2) = Inr True" by blast
  from fleet_integrity [OF set_order_insertion_order re] e
  have "\<not> DomainError (IncorrectParametersException AlreadyShot)" by blast
  with set_order_insertion_order re h u t e show ?thesis by simp
qed

theorem fleet_integrity_counterexample:
  "Ship 1 ''horizontal'' \<lparr>column = 1, row = 1, state = ''hidden''\<rparr> (Some 0) = Inr feeble_ship \<and>
   fst (add_ship insertion_order feeble_ship Board) = Inr () \<and>
   map health (ships_list (snd (add_ship insertion_order feeble_ship Board))) = [0] \<and>
   state (dot_at (board (snd (add_ship insertion_order feeble_ship Board))) (1, 1)) =
     ''undamaged'' \<and>
   DomainError (GameplayException HealthNegative) \<and>
   fst (shot insertion_order 1 1 (snd (add_ship insertion_order feeble_ship Board))) =
     Inl (GameplayException HealthNegative) \<and>
   Ship 1 ''horizontal'' \<lparr>column = 1, row = 1, state = ''hidden''\<rparr> None =
     Inr (built_ship 1 ''horizontal'' 1 1) \<and>
   fst (add_ship insertion_order (built_ship 1 ''horizontal'' 1 1) Board) = Inr () \<and>
   reduce_health (ships_list
      (snd (add_ship insertion_order (built_ship 1 ''horizontal'' 1 1) Board)) ! 0) =
     Inr sunk_ship \<and>
   fst (shot insertion_order 1 1
      (snd (add_ship insertion_order (built_ship 1 ''horizontal'' 1 1) Board))) = Inr True \<and>
   ships_list (snd (shot insertion_order 1 1
      (snd (add_ship insertion_order (built_ship 1 ''horizontal'' 1 1) Board)))) = [] \<and>
   fst (add_ship insertion_order sunk_ship (snd (shot insertion_order 1 1
      (snd (add_ship insertion_order (built_ship 1 ''horizontal'' 1 1) Board))))) = Inr () \<and>
   map health (ships_list (snd (add_ship insertion_order sunk_ship
      (snd (shot insertion_order 1 1
         (snd (add_ship insertion_order (built_ship 1 ''horizontal'' 1 1) Board))))))) = [0] \<and>
   state (dot_at (board (snd (add_ship insertion_order sunk_ship
      (snd (shot insertion_order 1 1
         (snd (add_ship insertion_order (built_ship 1 ''horizontal'' 1 1) Board))))))) (1, 1)) =
     ''undamaged'' \<and>
   fst (shot insertion_order 1 1 (snd (add_ship insertion_order sunk_ship
      (snd (shot insertion_order 1 1
         (snd (add_ship insertion_order (built_ship 1 ''horizontal'' 1 1) Board))))))) =
     Inl (GameplayException HealthNegative)"
  by code_simp

end
